theory Spec2Isabelle
  imports Complex_Main "HOL-Library.Word" "HOL-Library.Multiset"
begin

section \<open>Data model of main.go\<close>

text \<open>
  Go's \<open>int64\<close> is a 64-bit word: \<open>+\<close> wraps around, and \<open>>\<close>, \<open><\<close> compare the signed
  readings (\<open><s\<close>, \<open>\<le>s\<close>). Go's \<open>int\<close> (cursor, scroll position, terminal height, level)
  is modelled by \<open>int\<close>: these values are bounded by the length of a listing and the
  height of a terminal. \<open>float64\<close> is modelled by \<open>real\<close>, so rounding is not part of
  the model.
\<close>

type_synonym int64 = "64 word"

text \<open>
  \<open>DirEntry\<close>. The field \<open>ParentDir\<close> (a pointer back to the parent) is only ever
  assigned in main.go and never read; it is left out.
\<close>

datatype DirEntry = DirEntry
  (Name: string) (Path: string) (Size: int64) (Percent: real)
  (Children: "DirEntry list") (IsDir: bool) (Level: int)

definition set_Percent :: "real \<Rightarrow> DirEntry \<Rightarrow> DirEntry" where
  "set_Percent p e = DirEntry (Name e) (Path e) (Size e) p (Children e) (IsDir e) (Level e)"

definition set_Children :: "DirEntry list \<Rightarrow> DirEntry \<Rightarrow> DirEntry" where
  "set_Children cs e = DirEntry (Name e) (Path e) (Size e) (Percent e) cs (IsDir e) (Level e)"

definition set_Size :: "int64 \<Rightarrow> DirEntry \<Rightarrow> DirEntry" where
  "set_Size s e = DirEntry (Name e) (Path e) s (Percent e) (Children e) (IsDir e) (Level e)"

text \<open>Go's \<open>error\<close> values produced by \<open>os.Stat\<close> and \<open>os.ReadDir\<close>: operation and path.\<close>

datatype error = PathError string string

section \<open>The collaborators: paths, the filesystem, sorting\<close>

text \<open>
  \<open>path/filepath\<close> on clean absolute Unix paths (\<open>/\<close>, \<open>/a\<close>, \<open>/a/b\<close>), which is what
  \<open>os.Getwd\<close> returns and what \<open>Join\<close> and \<open>Dir\<close> produce from such paths.
\<close>

definition filepath_Join :: "string \<Rightarrow> string \<Rightarrow> string" where
  "filepath_Join path name = (if path = ''/'' then path @ name else path @ ''/'' @ name)"

definition filepath_Dir :: "string \<Rightarrow> string" where
  "filepath_Dir path =
     (let d = rev (drop 1 (dropWhile (\<lambda>c. c \<noteq> CHR ''/'') (rev path)))
      in if d = [] then ''/'' else d)"

definition filepath_Base :: "string \<Rightarrow> string" where
  "filepath_Base path =
     (let b = rev (takeWhile (\<lambda>c. c \<noteq> CHR ''/'') (rev path))
      in if b = [] then ''/'' else b)"

definition HasPrefix :: "string \<Rightarrow> string \<Rightarrow> bool" where
  "HasPrefix s pre = (take (length pre) s = pre)"

text \<open>
  What the filesystem holds at a path, as \<open>os.ReadDir\<close> and \<open>DirEntry.Info\<close> show it:
  a non-directory with its size, a directory with its entries in listing order, a
  directory whose listing fails, or an entry whose \<open>Info()\<close> fails. Each node carries
  the name \<open>e.Name()\<close> under which its parent lists it.
\<close>

datatype fsnode =
    FsFile string int64
  | FsDir string "fsnode list"
  | FsLocked string
  | FsBroken string

datatype FileInfo = InfoDir | InfoFile int64

fun info_IsDir :: "FileInfo \<Rightarrow> bool" where
  "info_IsDir InfoDir = True"
| "info_IsDir (InfoFile s) = False"

fun info_Size :: "FileInfo \<Rightarrow> int64" where
  "info_Size (InfoFile s) = s"
| "info_Size InfoDir = 0"

fun entry_Name :: "fsnode \<Rightarrow> string" where
  "entry_Name (FsFile n s) = n"
| "entry_Name (FsDir n es) = n"
| "entry_Name (FsLocked n) = n"
| "entry_Name (FsBroken n) = n"

fun entry_Info :: "fsnode \<Rightarrow> FileInfo option" where
  "entry_Info (FsFile n s) = Some (InfoFile s)"
| "entry_Info (FsDir n es) = Some InfoDir"
| "entry_Info (FsLocked n) = Some InfoDir"
| "entry_Info (FsBroken n) = None"

text \<open>A filesystem tells which node lives at a path, if any.\<close>

type_synonym filesystem = "string \<Rightarrow> fsnode option"

definition os_Stat :: "filesystem \<Rightarrow> string \<Rightarrow> error + FileInfo" where
  "os_Stat fs path =
     (case fs path of
        None \<Rightarrow> Inl (PathError ''stat'' path)
      | Some node \<Rightarrow>
          (case entry_Info node of
             None \<Rightarrow> Inl (PathError ''stat'' path)
           | Some info \<Rightarrow> Inr info))"

definition os_ReadDir :: "filesystem \<Rightarrow> string \<Rightarrow> error + fsnode list" where
  "os_ReadDir fs path =
     (case fs path of
        Some (FsDir n es) \<Rightarrow> Inr es
      | _ \<Rightarrow> Inl (PathError ''open'' path))"

text \<open>
  \<open>sort.Slice(xs, less)\<close> is library code; it is not stable and its algorithm is not
  fixed. It is modelled by the insertion sort that Go runs on short slices, driven by
  the same \<open>less\<close>: each element in turn moves left past the elements it is \<open>less\<close>
  than. The theorems below use only that the result is a rearrangement ordered by
  \<open>less\<close>.
\<close>

fun insert_by :: "('a \<Rightarrow> 'a \<Rightarrow> bool) \<Rightarrow> 'a \<Rightarrow> 'a list \<Rightarrow> 'a list" where
  "insert_by lt x [] = [x]"
| "insert_by lt x (y # ys) = (if lt x y then x # y # ys else y # insert_by lt x ys)"

definition sort_Slice :: "('a \<Rightarrow> 'a \<Rightarrow> bool) \<Rightarrow> 'a list \<Rightarrow> 'a list" where
  "sort_Slice lt xs = foldl (\<lambda>sorted x. insert_by lt x sorted) [] xs"

section \<open>The size cache\<close>

text \<open>
  \<open>calculateFullDirSize(path)\<close>, given the node that lives at \<open>path\<close>: \<open>os.ReadDir\<close>
  fails on anything but a readable directory, and the recursive call on \<open>childPath\<close>
  reads the child node. \<open>sizeLoop\<close> is the \<open>for\<close> loop with its running \<open>size\<close>,
  here \<open>sz\<close>.
\<close>

fun calculateFullDirSize :: "fsnode \<Rightarrow> int64"
  and sizeLoop :: "fsnode list \<Rightarrow> int64 \<Rightarrow> int64" where
  "calculateFullDirSize (FsDir n entries) = sizeLoop entries 0"
| "calculateFullDirSize (FsFile n s) = 0"
| "calculateFullDirSize (FsLocked n) = 0"
| "calculateFullDirSize (FsBroken n) = 0"
| "sizeLoop [] sz = sz"
| "sizeLoop (entry # entries) sz =
     (if HasPrefix (entry_Name entry) ''.'' then sizeLoop entries sz
      else case entry_Info entry of
             None \<Rightarrow> sizeLoop entries sz
           | Some info \<Rightarrow>
               if info_IsDir info
               then sizeLoop entries (sz + calculateFullDirSize entry)
               else sizeLoop entries (sz + info_Size info))"

text \<open>
  The global \<open>sizeCache\<close> map, together with a log of what \<open>getCachedSize\<close> did: one
  \<open>Traversed p\<close> for each call of \<open>calculateFullDirSize\<close> it made for \<open>p\<close>, one
  \<open>Stored p\<close> for each assignment \<open>sizeCache[p] = size\<close>. The log is the call counter of
  a test; no result depends on it. Calls do not overlap in time: the mutex and
  interleaved goroutines are not part of the model.
\<close>

datatype cache_event = Traversed string | Stored string

record cache_state =
  sizeCache :: "string \<Rightarrow> int64 option"
  events :: "cache_event list"

definition empty_cache :: cache_state where
  "empty_cache = \<lparr> sizeCache = (\<lambda>p. None), events = [] \<rparr>"

definition getCachedSize :: "cache_state \<Rightarrow> string \<Rightarrow> fsnode \<Rightarrow> int64 \<times> cache_state" where
  "getCachedSize st path node =
     (case sizeCache st path of
        Some sz \<Rightarrow> (sz, st)
      | None \<Rightarrow>
          (let sz = calculateFullDirSize node
           in (sz, \<lparr> sizeCache = (sizeCache st)(path \<mapsto> sz),
                      events = events st @ [Traversed path, Stored path] \<rparr>)))"

section \<open>The scanner\<close>

definition bySizeDesc :: "DirEntry \<Rightarrow> DirEntry \<Rightarrow> bool" where
  "bySizeDesc a b = (Size b <s Size a)"

text \<open>
  The \<open>for\<close> loop of \<open>scanDirectoryWithCache\<close> over the entries, with its running
  \<open>totalSize\<close>, \<open>directories\<close>, \<open>files\<close> and the cache.
\<close>

fun scanLoop :: "string \<Rightarrow> int \<Rightarrow> bool \<Rightarrow> fsnode list
    \<Rightarrow> int64 \<times> DirEntry list \<times> DirEntry list \<times> cache_state
    \<Rightarrow> int64 \<times> DirEntry list \<times> DirEntry list \<times> cache_state" where
  "scanLoop path level showFiles [] acc = acc"
| "scanLoop path level showFiles (e # es) (totalSize, directories, files, st) =
     (let childPath = filepath_Join path (entry_Name e) in
      if HasPrefix (entry_Name e) ''.''
      then scanLoop path level showFiles es (totalSize, directories, files, st)
      else case entry_Info e of
        None \<Rightarrow> scanLoop path level showFiles es (totalSize, directories, files, st)
      | Some childInfo \<Rightarrow>
          if info_IsDir childInfo then
            (let (childSize, st') = getCachedSize st childPath e;
                 child = DirEntry (entry_Name e) childPath childSize 0 [] True (level + 1)
             in scanLoop path level showFiles es
                  (totalSize + childSize, directories @ [child], files, st'))
          else if showFiles then
            (let child = DirEntry (entry_Name e) childPath (info_Size childInfo) 0 []
                           False (level + 1)
             in scanLoop path level showFiles es
                  (totalSize + info_Size childInfo, directories, files @ [child], st))
          else scanLoop path level showFiles es
                 (totalSize + info_Size childInfo, directories, files, st))"

definition percentOf :: "int64 \<Rightarrow> int64 \<Rightarrow> real" where
  "percentOf sz totalSize = real_of_int (sint sz) / real_of_int (sint totalSize) * 100"

definition scanDirectoryWithCache ::
  "filesystem \<Rightarrow> cache_state \<Rightarrow> string \<Rightarrow> int \<Rightarrow> bool \<Rightarrow> (error + DirEntry) \<times> cache_state" where
  "scanDirectoryWithCache fs st path level showFiles =
     (case os_Stat fs path of
        Inl err \<Rightarrow> (Inl err, st)
      | Inr info \<Rightarrow>
          (let entry = DirEntry (filepath_Base path) path 0 0 [] (info_IsDir info) level in
           if \<not> info_IsDir info then (Inr (set_Size (info_Size info) entry), st)
           else case os_ReadDir fs path of
             Inl err \<Rightarrow> (Inl err, st)
           | Inr entries \<Rightarrow>
               (let (totalSize, directories, files, st') =
                      scanLoop path level showFiles entries (0, [], [], st);
                    directories = sort_Slice bySizeDesc directories;
                    files = sort_Slice bySizeDesc files;
                    children = directories @ files;
                    children = (if 0 <s totalSize
                                then map (\<lambda>child. set_Percent (percentOf (Size child) totalSize) child)
                                       children
                                else children)
                in (Inr (set_Children children (set_Size totalSize entry)), st'))))"

text \<open>
  \<open>Model.loadDirectory\<close>: the body of the command it returns, run against a filesystem
  and the cache. The result is the \<open>LoadingCompleteMsg\<close>, as its two fields.
\<close>

definition loadDirectory ::
  "filesystem \<Rightarrow> cache_state \<Rightarrow> string \<Rightarrow> bool
     \<Rightarrow> (DirEntry option \<times> error option) \<times> cache_state" where
  "loadDirectory fs st path showFiles =
     (case scanDirectoryWithCache fs st path 0 showFiles of
        (Inl err, st') \<Rightarrow> ((None, Some err), st')
      | (Inr dir, st') \<Rightarrow> ((Some (set_Percent 100 dir), None), st'))"

section \<open>The navigation model\<close>

record Model =
  RootDir :: "DirEntry option"
  CursorPos :: int
  ScrollPos :: int
  VisibleDirs :: "DirEntry list"
  Error :: "error option"
  Loading :: bool
  LoadingPath :: string
  SpinnerIdx :: int
  ShowFiles :: bool
  Height :: int

text \<open>
  The messages \<open>Update\<close> switches on. \<open>KeyMsg\<close> carries \<open>msg.String()\<close>; \<open>OtherMsg\<close> is
  any message type without a case of its own (\<open>ExecuteFileMsg\<close> among them).
\<close>

datatype Msg =
    WindowSizeMsg int int
  | LoadingMsg string
  | LoadingCompleteMsg "DirEntry option" "error option"
  | SpinnerMsg
  | KeyMsg string
  | OtherMsg

text \<open>
  The commands \<open>Update\<close> returns: \<open>nil\<close>, \<open>tea.Quit\<close>, the closure that returns
  \<open>LoadingMsg{Path: p}\<close>, \<open>m.loadDirectory(p)\<close> (which captures \<open>m.ShowFiles\<close>),
  \<open>m.executeFile(p)\<close> and \<open>m.doSpinner()\<close>.
\<close>

datatype Cmd =
    NoCmd
  | Quit
  | SendLoadingMsg string
  | LoadDirectoryCmd string bool
  | ExecuteFileCmd string
  | DoSpinnerCmd

text \<open>Run-time panics of Go that the code can reach.\<close>

datatype panic = NilDereference | IndexOutOfRange int | NegativeRepeatCount

definition len :: "'a list \<Rightarrow> int" where
  "len xs = int (length xs)"

text \<open>Go's \<open>%\<close> truncates towards zero.\<close>

definition go_rem :: "int \<Rightarrow> int \<Rightarrow> int" where
  "go_rem a b = sgn a * (\<bar>a\<bar> mod \<bar>b\<bar>)"

definition ensureCursorVisible :: "Model \<Rightarrow> Model" where
  "ensureCursorVisible m =
     (if len (VisibleDirs m) = 0 then m
      else
        let maxVisible = Height m - 2;
            m = (if CursorPos m < ScrollPos m then m\<lparr>ScrollPos := CursorPos m\<rparr>
                 else if CursorPos m \<ge> ScrollPos m + maxVisible
                 then m\<lparr>ScrollPos := CursorPos m - maxVisible + 1\<rparr>
                 else m);
            m = (if ScrollPos m < 0 then m\<lparr>ScrollPos := 0\<rparr> else m);
            maxScroll = len (VisibleDirs m) - maxVisible;
            maxScroll = (if maxScroll < 0 then 0 else maxScroll)
        in if ScrollPos m > maxScroll then m\<lparr>ScrollPos := maxScroll\<rparr> else m)"

definition updateVisibleDirs :: "Model \<Rightarrow> panic + Model" where
  "updateVisibleDirs m =
     (case RootDir m of
        None \<Rightarrow> Inl NilDereference
      | Some rootDir \<Rightarrow>
          (let parentPath = filepath_Dir (Path rootDir);
               visible = (if parentPath \<noteq> Path rootDir
                          then [DirEntry ''..'' parentPath 0 0 [] True 0] else []);
               visible = visible @ filter (\<lambda>child. IsDir child \<or> ShowFiles m) (Children rootDir)
           in Inr (m\<lparr>VisibleDirs := visible, CursorPos := 0, ScrollPos := 0\<rparr>)))"

text \<open>The inner \<open>switch msg.String()\<close> of \<open>Update\<close>, reached when \<open>m.Loading\<close> is false.\<close>

definition handleKey :: "Model \<Rightarrow> string \<Rightarrow> panic + (Model \<times> Cmd)" where
  "handleKey m key =
     (if key = ''q'' \<or> key = ''ctrl+c'' then Inr (m, Quit)
      else if key = ''up'' \<or> key = ''k'' then
        (if CursorPos m > 0
         then Inr (ensureCursorVisible (m\<lparr>CursorPos := CursorPos m - 1\<rparr>), NoCmd)
         else Inr (m, NoCmd))
      else if key = ''down'' \<or> key = ''j'' then
        (if CursorPos m < len (VisibleDirs m) - 1
         then Inr (ensureCursorVisible (m\<lparr>CursorPos := CursorPos m + 1\<rparr>), NoCmd)
         else Inr (m, NoCmd))
      else if key = ''enter'' then
        (if CursorPos m < len (VisibleDirs m) then
           (if CursorPos m < 0 then Inl (IndexOutOfRange (CursorPos m))
            else
              let dir = VisibleDirs m ! nat (CursorPos m) in
              if IsDir dir then
                (if Name dir = ''..'' then
                   (case RootDir m of
                      None \<Rightarrow> Inl NilDereference
                    | Some rootDir \<Rightarrow>
                        (let parentPath = filepath_Dir (Path rootDir) in
                         if parentPath \<noteq> Path rootDir then Inr (m, SendLoadingMsg parentPath)
                         else Inr (m, NoCmd)))
                 else Inr (m, SendLoadingMsg (Path dir)))
              else Inr (m, ExecuteFileCmd (Path dir)))
         else Inr (m, NoCmd))
      else if key = ''backspace'' \<or> key = ''h'' then
        (case RootDir m of
           None \<Rightarrow> Inl NilDereference
         | Some rootDir \<Rightarrow>
             (let parentPath = filepath_Dir (Path rootDir) in
              if parentPath \<noteq> Path rootDir then Inr (m, SendLoadingMsg parentPath)
              else Inr (m, NoCmd)))
      else if key = ''home'' \<or> key = ''g'' then
        Inr (ensureCursorVisible (m\<lparr>CursorPos := 0\<rparr>), NoCmd)
      else if key = ''end'' \<or> key = ''G'' then
        (if len (VisibleDirs m) > 0
         then Inr (ensureCursorVisible (m\<lparr>CursorPos := len (VisibleDirs m) - 1\<rparr>), NoCmd)
         else Inr (m, NoCmd))
      else if key = ''pgup'' then
        (let maxVisible = Height m - 2;
             m = m\<lparr>CursorPos := CursorPos m - maxVisible\<rparr>;
             m = (if CursorPos m < 0 then m\<lparr>CursorPos := 0\<rparr> else m)
         in Inr (ensureCursorVisible m, NoCmd))
      else if key = ''pgdown'' then
        (let maxVisible = Height m - 2;
             m = m\<lparr>CursorPos := CursorPos m + maxVisible\<rparr>;
             m = (if CursorPos m \<ge> len (VisibleDirs m)
                  then m\<lparr>CursorPos := len (VisibleDirs m) - 1\<rparr> else m)
         in Inr (ensureCursorVisible m, NoCmd))
      else Inr (m, NoCmd))"

fun Update :: "Model \<Rightarrow> Msg \<Rightarrow> panic + (Model \<times> Cmd)" where
  "Update m (WindowSizeMsg w h) = Inr (ensureCursorVisible (m\<lparr>Height := h\<rparr>), NoCmd)"
| "Update m (LoadingMsg path) =
     (let m = m\<lparr>Loading := True, LoadingPath := path\<rparr>
      in Inr (m, LoadDirectoryCmd path (ShowFiles m)))"
| "Update m (LoadingCompleteMsg dir err) =
     (let m = m\<lparr>Loading := False\<rparr> in
      case err of
        Some e \<Rightarrow> Inr (m\<lparr>Error := Some e\<rparr>, NoCmd)
      | None \<Rightarrow>
          (case updateVisibleDirs (m\<lparr>RootDir := dir\<rparr>) of
             Inl p \<Rightarrow> Inl p
           | Inr m \<Rightarrow> Inr (ensureCursorVisible (m\<lparr>CursorPos := 0, ScrollPos := 0\<rparr>), NoCmd)))"
| "Update m SpinnerMsg =
     (if Loading m then Inr (m\<lparr>SpinnerIdx := go_rem (SpinnerIdx m + 1) 4\<rparr>, DoSpinnerCmd)
      else Inr (m, NoCmd))"
| "Update m (KeyMsg key) =
     (if Loading m then
        (if key = ''q'' \<or> key = ''ctrl+c'' then Inr (m, Quit) else Inr (m, NoCmd))
      else handleKey m key)"
| "Update m OtherMsg = Inr (m, NoCmd)"

text \<open>
  \<open>View\<close>, up to styling: which of the three screens is shown and, for the listing,
  the header path and one row per entry of the window \<open>start \<le> i < end\<close> (here
  \<open>stop\<close>), with the fields the row is
  formatted from (\<open>humanize.Bytes\<close>, \<open>Sprintf\<close> and lipgloss are not modelled).
\<close>

record Row =
  row_selected :: bool
  row_indent :: int
  row_IsDir :: bool
  row_name :: string
  row_Size :: int64
  row_Percent :: real

datatype Screen =
    ErrorScreen error
  | LoadingScreen int string
  | ListingScreen string "Row list"

definition viewRow :: "Model \<Rightarrow> int \<Rightarrow> Row" where
  "viewRow m i =
     (let dir = VisibleDirs m ! nat i;
          name = Name dir;
          name = (if len name > 50 then take 47 name @ ''...'' else name)
      in \<lparr> row_selected = (i = CursorPos m), row_indent = Level dir, row_IsDir = IsDir dir,
           row_name = name, row_Size = Size dir, row_Percent = Percent dir \<rparr>)"

definition View :: "Model \<Rightarrow> panic + Screen" where
  "View m =
     (case Error m of
        Some e \<Rightarrow> Inr (ErrorScreen e)
      | None \<Rightarrow>
          if Loading m then
            (if 0 \<le> SpinnerIdx m \<and> SpinnerIdx m < 4
             then Inr (LoadingScreen (SpinnerIdx m) (LoadingPath m))
             else Inl (IndexOutOfRange (SpinnerIdx m)))
          else case RootDir m of
            None \<Rightarrow> Inl NilDereference
          | Some rootDir \<Rightarrow>
              (let maxVisible = Height m - 2;
                   start = ScrollPos m;
                   stop = start + maxVisible;
                   stop = (if stop > len (VisibleDirs m) then len (VisibleDirs m) else stop)
               in if start < stop \<and> start < 0 then Inl (IndexOutOfRange start)
                  else if \<exists>i \<in> set [start..stop - 1]. Level (VisibleDirs m ! nat i) < 0
                  then Inl NegativeRepeatCount
                  else Inr (ListingScreen (Path rootDir) (map (viewRow m) [start..stop - 1]))))"

text \<open>
  The model \<open>main\<close> builds before the program starts, from the scan of the working
  directory.
\<close>

definition initialModel :: "DirEntry \<Rightarrow> bool \<Rightarrow> panic + Model" where
  "initialModel rootDir showFiles =
     updateVisibleDirs
       \<lparr> RootDir = Some rootDir, CursorPos = 0, ScrollPos = 0, VisibleDirs = [],
         Error = None, Loading = False, LoadingPath = [], SpinnerIdx = 0,
         ShowFiles = showFiles, Height = 20 \<rparr>"

text \<open>
  A run of the event loop: the messages are handled in order and the commands that
  \<open>Update\<close> returns are collected; a panic ends the run.
\<close>

fun run :: "Model \<Rightarrow> Msg list \<Rightarrow> panic + (Model \<times> Cmd list)" where
  "run m [] = Inr (m, [])"
| "run m (msg # msgs) =
     (case Update m msg of
        Inl p \<Rightarrow> Inl p
      | Inr (m', cmd) \<Rightarrow>
          (case run m' msgs of
             Inl p \<Rightarrow> Inl p
           | Inr (m'', cmds) \<Rightarrow> Inr (m'', cmd # cmds)))"

text \<open>
  The scans of a process, in order: the one \<open>main\<close> makes and one for each
  \<open>loadDirectory\<close>, each against the filesystem as it is at that moment, all at level 0
  and all on the one global cache.
\<close>

fun scans :: "cache_state \<Rightarrow> (filesystem \<times> string \<times> bool) list \<Rightarrow> cache_state" where
  "scans st [] = st"
| "scans st ((fs, path, showFiles) # rest) =
     scans (snd (scanDirectoryWithCache fs st path 0 showFiles)) rest"

section \<open>Vocabulary for the properties of a scan\<close>

text \<open>
  What a listing offers to the scanner: the names of the entries that are directories
  and not hidden, and the name and size of the entries that are files and not hidden
  (an entry whose \<open>Info()\<close> fails is neither). \<open>scanned_child\<close> collects the fields
  every child is created with, and \<open>withPercent\<close> is the body of the percentage loop
  together with its guard.
\<close>

definition listedDirs :: "fsnode list \<Rightarrow> string list" where
  "listedDirs es =
     [entry_Name e. e \<leftarrow> es, entry_Info e = Some InfoDir, \<not> HasPrefix (entry_Name e) ''.'']"

definition listedFiles :: "fsnode list \<Rightarrow> (string \<times> int64) list" where
  "listedFiles es = [(n, s). FsFile n s \<leftarrow> es, \<not> HasPrefix n ''.'']"

definition scanned_child :: "string \<Rightarrow> int \<Rightarrow> DirEntry \<Rightarrow> bool" where
  "scanned_child path level c \<longleftrightarrow>
     Level c = level + 1 \<and> Percent c = 0 \<and> Children c = []
     \<and> Path c = filepath_Join path (Name c) \<and> \<not> HasPrefix (Name c) ''.''"

definition withPercent :: "int64 \<Rightarrow> DirEntry \<Rightarrow> DirEntry" where
  "withPercent tot c = (if 0 <s tot then set_Percent (percentOf (Size c) tot) c else c)"

text \<open>
  The invariant of the cache and its log: nothing is logged twice, and whatever was
  traversed or stored is in the cache.
\<close>

definition cache_inv :: "cache_state \<Rightarrow> bool" where
  "cache_inv st \<longleftrightarrow>
     distinct (events st)
     \<and> (\<forall>p. Traversed p \<in> set (events st) \<or> Stored p \<in> set (events st)
            \<longrightarrow> sizeCache st p \<noteq> None)"

section \<open>Example filesystems\<close>

text \<open>
  A small tree under \<open>/tmp/x\<close>: two readable directories, a hidden file, a plain file,
  a directory that cannot be listed and an entry whose \<open>Info()\<close> fails.
\<close>

definition example_listing :: "fsnode list" where
  "example_listing =
     [FsDir ''b'' [FsFile ''f'' 100], FsFile ''.hidden'' 7,
      FsDir ''a'' [FsFile ''g'' 200, FsDir ''sub'' [FsFile ''h'' 100]],
      FsFile ''readme'' 50, FsLocked ''secret'', FsBroken ''gone'']"

definition example_fs :: filesystem where
  "example_fs = (\<lambda>p. None)
     (''/tmp/x'' \<mapsto> FsDir ''x'' example_listing,
      ''/tmp/x/a'' \<mapsto> FsDir ''a'' [FsFile ''g'' 200, FsDir ''sub'' [FsFile ''h'' 100]],
      ''/tmp/x/b'' \<mapsto> FsDir ''b'' [FsFile ''f'' 100],
      ''/tmp/x/secret'' \<mapsto> FsLocked ''secret'')"

text \<open>
  A directory with two files of 4 EiB each (\<open>2^62\<close> bytes, which sparse files reach on
  filesystems whose size limit is \<open>2^63 - 1\<close>): their \<open>int64\<close> sum wraps around.
\<close>

definition overflow_fs :: filesystem where
  "overflow_fs = (\<lambda>p. None)
     (''/big'' \<mapsto> FsDir ''big'' [FsFile ''a'' 4611686018427387904, FsFile ''b'' 4611686018427387904])"

text \<open>
  What \<open>loadDirectory\<close> returns for \<open>/tmp/x\<close> and for \<open>/tmp/x/a\<close> with files not shown
  (lemmas \<open>load_example_root\<close> and \<open>load_example_a\<close>), and the model \<open>main\<close> builds when
  the program starts in \<open>/tmp/x\<close> (lemma \<open>main_example_model\<close>).
\<close>

definition example_root :: DirEntry where
  "example_root = DirEntry ''x'' ''/tmp/x'' 450 100
     [DirEntry ''a'' ''/tmp/x/a'' 300 (200 / 3) [] True 1,
      DirEntry ''b'' ''/tmp/x/b'' 100 (200 / 9) [] True 1,
      DirEntry ''secret'' ''/tmp/x/secret'' 0 0 [] True 1] True 0"

definition example_a :: DirEntry where
  "example_a = DirEntry ''a'' ''/tmp/x/a'' 300 100
     [DirEntry ''sub'' ''/tmp/x/a/sub'' 100 (100 / 3) [] True 1] True 0"

definition example_model :: Model where
  "example_model =
     \<lparr> RootDir = Some example_root, CursorPos = 0, ScrollPos = 0,
       VisibleDirs = DirEntry ''..'' ''/tmp'' 0 0 [] True 0 # Children example_root,
       Error = None, Loading = False, LoadingPath = [], SpinnerIdx = 0,
       ShowFiles = False, Height = 20 \<rparr>"

text \<open>
  The model \<open>main\<close> builds when the program starts in a filesystem root that has
  nothing to show (lemma \<open>main_empty_root_model\<close>): the visible list is empty.
\<close>

definition empty_root_model :: Model where
  "empty_root_model =
     \<lparr> RootDir = Some (DirEntry ''/'' ''/'' 0 100 [] True 0), CursorPos = 0, ScrollPos = 0,
       VisibleDirs = [], Error = None, Loading = False, LoadingPath = [], SpinnerIdx = 0,
       ShowFiles = False, Height = 20 \<rparr>"

section \<open>The viewport invariant\<close>

text \<open>
  For a non-empty visible list: the cursor is an index of the list and, when at least
  one row fits under the header (\<open>maxVisible = Height - 2 > 0\<close>), it lies in the window
  \<open>scrollOffset <= cursor <= scrollOffset + maxVisible - 1\<close>.
\<close>

definition viewport_ok :: "Model \<Rightarrow> bool" where
  "viewport_ok m \<longleftrightarrow>
     (VisibleDirs m \<noteq> [] \<longrightarrow>
        0 \<le> CursorPos m \<and> CursorPos m < len (VisibleDirs m)
        \<and> (0 < Height m - 2 \<longrightarrow>
             ScrollPos m \<le> CursorPos m \<and> CursorPos m \<le> ScrollPos m + (Height m - 2) - 1))"

section \<open>Lemmas about sorting, the scan loop and the cache\<close>

lemma mset_insert_by: "mset (insert_by lt x xs) = add_mset x (mset xs)"
  by (induction xs) auto

lemma mset_insertion_loop:
  "mset (foldl (\<lambda>sorted x. insert_by lt x sorted) acc xs) = mset acc + mset xs"
  by (induction xs arbitrary: acc) (simp_all add: mset_insert_by)

lemma mset_sort_Slice: "mset (sort_Slice lt xs) = mset xs"
  by (simp add: sort_Slice_def mset_insertion_loop)

lemma set_sort_Slice: "set (sort_Slice lt xs) = set xs"
  using mset_sort_Slice [of lt xs] by (metis set_mset_mset)

lemma sorted_insert_by:
  "sorted_wrt (\<lambda>a b. Size b \<le>s Size a) xs \<Longrightarrow>
   sorted_wrt (\<lambda>a b. Size b \<le>s Size a) (insert_by bySizeDesc x xs)"
proof (induction xs)
  case Nil
  then show ?case by simp
next
  case (Cons y ys)
  have set_ins: "set (insert_by bySizeDesc x ys) = insert x (set ys)"
    using mset_insert_by [of bySizeDesc x ys] by (metis set_mset_mset set_mset_add_mset_insert)
  show ?case
  proof (cases "bySizeDesc x y")
    case True
    then have xy: "Size y <s Size x" by (simp add: bySizeDesc_def)
    have "\<forall>z \<in> set ys. Size z \<le>s Size x"
    proof
      fix z assume "z \<in> set ys"
      with Cons.prems have "Size z \<le>s Size y" by simp
      with xy show "Size z \<le>s Size x" by (simp add: word_sle_eq word_sless_alt)
    qed
    moreover from xy have "Size y \<le>s Size x" by (simp add: word_sle_eq word_sless_alt)
    ultimately show ?thesis using True Cons.prems by simp
  next
    case False
    then have "Size x \<le>s Size y" by (simp add: bySizeDesc_def word_sle_eq word_sless_alt)
    then show ?thesis using False Cons by (simp add: set_ins)
  qed
qed

lemma sorted_insertion_loop:
  "sorted_wrt (\<lambda>a b. Size b \<le>s Size a) acc \<Longrightarrow>
   sorted_wrt (\<lambda>a b. Size b \<le>s Size a)
     (foldl (\<lambda>sorted x. insert_by bySizeDesc x sorted) acc xs)"
  by (induction xs arbitrary: acc) (simp_all add: sorted_insert_by)

lemma sorted_sort_Slice: "sorted_wrt (\<lambda>a b. Size b \<le>s Size a) (sort_Slice bySizeDesc xs)"
  by (simp add: sort_Slice_def sorted_insertion_loop)

lemma sum_sort_Slice:
  fixes f :: "'a \<Rightarrow> 'b::comm_monoid_add"
  shows "sum_list (map f (sort_Slice lt xs)) = sum_list (map f xs)"
proof -
  have "sum_mset (image_mset f (mset (sort_Slice lt xs))) = sum_mset (image_mset f (mset xs))"
    by (simp add: mset_sort_Slice)
  then show ?thesis by (simp add: sum_mset_sum_list flip: mset_map)
qed

lemma listedFiles_Cons: "listedFiles (e # es) = listedFiles [e] @ listedFiles es"
  by (simp add: listedFiles_def)

lemma listedDirs_Cons: "listedDirs (e # es) = listedDirs [e] @ listedDirs es"
  by (simp add: listedDirs_def)

lemma getCachedSize_stores:
  "getCachedSize st p node = (sz, st2) \<Longrightarrow> sizeCache st2 p = Some sz"
  by (auto simp: getCachedSize_def Let_def split: option.splits)

lemma getCachedSize_keeps:
  "getCachedSize st p node = (sz, st2) \<Longrightarrow> sizeCache st q = Some v \<Longrightarrow> sizeCache st2 q = Some v"
  by (auto simp: getCachedSize_def Let_def split: option.splits)

lemma scanLoop_step:
  "\<exists>dn fn st2.
     scanLoop path level sf (e # es) (t, ds, fs, st)
       = scanLoop path level sf es
           (t + sum_list (map Size dn) + sum_list (map Size fn)
              + (if sf then 0 else sum_list (map snd (listedFiles [e]))),
            ds @ dn, fs @ fn, st2)
     \<and> (\<forall>d \<in> set dn. IsDir d \<and> scanned_child path level d
                      \<and> sizeCache st2 (Path d) = Some (Size d))
     \<and> (\<forall>f \<in> set fn. \<not> IsDir f \<and> scanned_child path level f)
     \<and> map Name dn = listedDirs [e]
     \<and> map (\<lambda>c. (Name c, Size c)) fn = (if sf then listedFiles [e] else [])
     \<and> (\<forall>p v. sizeCache st p = Some v \<longrightarrow> sizeCache st2 p = Some v)"
  (is "\<exists>dn fn st2. ?P dn fn st2")
proof (cases "HasPrefix (entry_Name e) ''.'' \<or> entry_Info e = None")
  case True
  then have "?P [] [] st"
    by (cases e) (auto simp: listedFiles_def listedDirs_def Let_def)
  then show ?thesis by blast
next
  case False
  then obtain info where info: "entry_Info e = Some info" and vis: "\<not> HasPrefix (entry_Name e) ''.''"
    by auto
  show ?thesis
  proof (cases "info_IsDir info")
    case True
    obtain sz st2 where g: "getCachedSize st (filepath_Join path (entry_Name e)) e = (sz, st2)"
      by (cases "getCachedSize st (filepath_Join path (entry_Name e)) e")
    have lf: "listedFiles [e] = []" and ld: "listedDirs [e] = [entry_Name e]"
      using info True vis by (cases e; auto simp: listedFiles_def listedDirs_def)+
    have keep: "\<forall>p v. sizeCache st p = Some v \<longrightarrow> sizeCache st2 p = Some v"
      using getCachedSize_keeps [OF g] by blast
    have "?P [DirEntry (entry_Name e) (filepath_Join path (entry_Name e)) sz 0 [] True (level + 1)] [] st2"
      using info vis True g lf ld keep getCachedSize_stores [OF g]
      by (simp add: scanned_child_def Let_def)
    then show ?thesis by blast
  next
    case False
    then obtain n s where e: "e = FsFile n s"
      using info by (cases e) auto
    show ?thesis
    proof (cases sf)
      case True
      have "?P [] [DirEntry n (filepath_Join path n) s 0 [] False (level + 1)] st"
        using e vis True by (simp add: scanned_child_def Let_def listedFiles_def listedDirs_def)
      then show ?thesis by blast
    next
      case sfF: False
      have "?P [] [] st"
        using e vis sfF by (simp add: listedFiles_def listedDirs_def Let_def)
      then show ?thesis by blast
    qed
  qed
qed

lemma scanLoop_shape:
  "\<exists>dn fn st2.
     scanLoop path level sf es (t, ds, fs, st)
       = (t + sum_list (map Size dn) + sum_list (map Size fn)
              + (if sf then 0 else sum_list (map snd (listedFiles es))),
          ds @ dn, fs @ fn, st2)
     \<and> (\<forall>d \<in> set dn. IsDir d \<and> scanned_child path level d
                      \<and> sizeCache st2 (Path d) = Some (Size d))
     \<and> (\<forall>f \<in> set fn. \<not> IsDir f \<and> scanned_child path level f)
     \<and> map Name dn = listedDirs es
     \<and> map (\<lambda>c. (Name c, Size c)) fn = (if sf then listedFiles es else [])
     \<and> (\<forall>p v. sizeCache st p = Some v \<longrightarrow> sizeCache st2 p = Some v)"
proof (induction es arbitrary: t ds fs st)
  case Nil
  have "scanLoop path level sf [] (t, ds, fs, st)
       = (t + sum_list (map Size []) + sum_list (map Size [])
              + (if sf then 0 else sum_list (map snd (listedFiles []))),
          ds @ [], fs @ [], st)"
    by (simp add: listedFiles_def)
  then show ?case
    by (intro exI [of _ "[]"] exI [of _ st]) (simp add: listedFiles_def listedDirs_def)
next
  case (Cons e es)
  let ?t1 = "\<lambda>dn fn. t + sum_list (map Size dn) + sum_list (map Size fn)
              + (if sf then 0 else sum_list (map snd (listedFiles [e])))"
  obtain dn fn st2 where
    step: "scanLoop path level sf (e # es) (t, ds, fs, st)
       = scanLoop path level sf es (?t1 dn fn, ds @ dn, fs @ fn, st2)"
    and dn: "\<forall>d \<in> set dn. IsDir d \<and> scanned_child path level d
                      \<and> sizeCache st2 (Path d) = Some (Size d)"
    and fn: "\<forall>f \<in> set fn. \<not> IsDir f \<and> scanned_child path level f"
    and dnames: "map Name dn = listedDirs [e]"
    and fnames: "map (\<lambda>c. (Name c, Size c)) fn = (if sf then listedFiles [e] else [])"
    and keep: "\<forall>p v. sizeCache st p = Some v \<longrightarrow> sizeCache st2 p = Some v"
    using scanLoop_step [of path level sf e es t ds fs st] by blast
  obtain dn' fn' st3 where
    rest: "scanLoop path level sf es (?t1 dn fn, ds @ dn, fs @ fn, st2)
       = (?t1 dn fn + sum_list (map Size dn') + sum_list (map Size fn')
              + (if sf then 0 else sum_list (map snd (listedFiles es))),
          (ds @ dn) @ dn', (fs @ fn) @ fn', st3)"
    and dn': "\<forall>d \<in> set dn'. IsDir d \<and> scanned_child path level d
                      \<and> sizeCache st3 (Path d) = Some (Size d)"
    and fn': "\<forall>f \<in> set fn'. \<not> IsDir f \<and> scanned_child path level f"
    and dnames': "map Name dn' = listedDirs es"
    and fnames': "map (\<lambda>c. (Name c, Size c)) fn' = (if sf then listedFiles es else [])"
    and keep': "\<forall>p v. sizeCache st2 p = Some v \<longrightarrow> sizeCache st3 p = Some v"
    using Cons.IH [of "?t1 dn fn" "ds @ dn" "fs @ fn" st2] by blast
  have "scanLoop path level sf (e # es) (t, ds, fs, st)
       = (t + sum_list (map Size (dn @ dn')) + sum_list (map Size (fn @ fn'))
              + (if sf then 0 else sum_list (map snd (listedFiles (e # es)))),
          ds @ (dn @ dn'), fs @ (fn @ fn'), st3)"
    unfolding step rest by (simp add: listedFiles_Cons [of e es] algebra_simps)
  moreover have "\<forall>d \<in> set (dn @ dn'). IsDir d \<and> scanned_child path level d
                      \<and> sizeCache st3 (Path d) = Some (Size d)"
    using dn dn' keep' by auto
  moreover have "\<forall>f \<in> set (fn @ fn'). \<not> IsDir f \<and> scanned_child path level f"
    using fn fn' by auto
  moreover have "map Name (dn @ dn') = listedDirs (e # es)"
    using dnames dnames' by (simp add: listedDirs_Cons [of e es])
  moreover have "map (\<lambda>c. (Name c, Size c)) (fn @ fn') = (if sf then listedFiles (e # es) else [])"
    using fnames fnames' by (simp add: listedFiles_Cons [of e es])
  moreover have "\<forall>p v. sizeCache st p = Some v \<longrightarrow> sizeCache st3 p = Some v"
    using keep keep' by blast
  ultimately show ?case by blast
qed

lemma withPercent_fields [simp]:
  "Size (withPercent tot c) = Size c"
  "IsDir (withPercent tot c) = IsDir c"
  "Name (withPercent tot c) = Name c"
  "Path (withPercent tot c) = Path c"
  "Level (withPercent tot c) = Level c"
  "Children (withPercent tot c) = Children c"
  by (simp_all add: withPercent_def set_Percent_def)

lemma withPercent_Percent:
  "Percent (withPercent tot c) = (if 0 <s tot then percentOf (Size c) tot else Percent c)"
  by (simp add: withPercent_def set_Percent_def)

lemma map_withPercent:
  "(if 0 <s tot then map (\<lambda>child. set_Percent (percentOf (Size child) tot) child) xs else xs)
     = map (withPercent tot) xs"
  by (induction xs) (simp_all add: withPercent_def)

lemma scan_dir_result:
  assumes node: "fs path = Some (FsDir n es)"
    and scan: "scanDirectoryWithCache fs st path level sf = (r, st')"
  shows "\<exists>ds fl tot.
           r = Inr (DirEntry (filepath_Base path) path tot 0
                      (map (withPercent tot) (sort_Slice bySizeDesc ds)
                         @ map (withPercent tot) (sort_Slice bySizeDesc fl))
                      True level)
         \<and> tot = sum_list (map Size ds) + sum_list (map Size fl)
                     + (if sf then 0 else sum_list (map snd (listedFiles es)))
         \<and> (\<forall>d \<in> set ds. IsDir d \<and> scanned_child path level d
                          \<and> sizeCache st' (Path d) = Some (Size d))
         \<and> (\<forall>f \<in> set fl. \<not> IsDir f \<and> scanned_child path level f)
         \<and> map Name ds = listedDirs es
         \<and> map (\<lambda>c. (Name c, Size c)) fl = (if sf then listedFiles es else [])
         \<and> (\<forall>p v. sizeCache st p = Some v \<longrightarrow> sizeCache st' p = Some v)"
proof -
  obtain ds fl st2 where
    loop: "scanLoop path level sf es (0, [], [], st)
       = (0 + sum_list (map Size ds) + sum_list (map Size fl)
              + (if sf then 0 else sum_list (map snd (listedFiles es))),
          [] @ ds, [] @ fl, st2)"
    and ds: "\<forall>d \<in> set ds. IsDir d \<and> scanned_child path level d
                      \<and> sizeCache st2 (Path d) = Some (Size d)"
    and fl: "\<forall>f \<in> set fl. \<not> IsDir f \<and> scanned_child path level f"
    and dnames: "map Name ds = listedDirs es"
    and fnames: "map (\<lambda>c. (Name c, Size c)) fl = (if sf then listedFiles es else [])"
    and keep: "\<forall>p v. sizeCache st p = Some v \<longrightarrow> sizeCache st2 p = Some v"
    using scanLoop_shape [of path level sf es 0 "[]" "[]" st] by blast
  let ?tot = "sum_list (map Size ds) + sum_list (map Size fl)
                     + (if sf then 0 else sum_list (map snd (listedFiles es)))"
  have "scanDirectoryWithCache fs st path level sf
        = (Inr (DirEntry (filepath_Base path) path ?tot 0
                      (map (withPercent ?tot) (sort_Slice bySizeDesc ds)
                         @ map (withPercent ?tot) (sort_Slice bySizeDesc fl))
                      True level), st2)"
    using node loop
    by (simp add: scanDirectoryWithCache_def os_Stat_def os_ReadDir_def Let_def
        set_Size_def set_Children_def map_withPercent)
  with scan have "r = Inr (DirEntry (filepath_Base path) path ?tot 0
                      (map (withPercent ?tot) (sort_Slice bySizeDesc ds)
                         @ map (withPercent ?tot) (sort_Slice bySizeDesc fl))
                      True level)" and "st' = st2"
    by simp_all
  with ds fl dnames fnames keep show ?thesis by blast
qed

lemma filter_groups:
  assumes "\<forall>d \<in> set D. P d" and "\<forall>f \<in> set F. \<not> P f"
  shows "filter P (D @ F) = D" and "filter (\<lambda>x. \<not> P x) (D @ F) = F"
  using assms by (simp_all add: filter_id_conv filter_empty_conv)

lemma groups_adjacent:
  assumes D: "\<forall>d \<in> set D. P d" and F: "\<forall>f \<in> set F. \<not> P f"
    and sD: "sorted_wrt R D" and sF: "sorted_wrt R F"
    and i: "i + 1 < length (D @ F)" and same: "P ((D @ F) ! i) = P ((D @ F) ! (i + 1))"
  shows "R ((D @ F) ! i) ((D @ F) ! (i + 1))"
proof (cases "i + 1 < length D")
  case True
  then have "(D @ F) ! i = D ! i" "(D @ F) ! (i + 1) = D ! (i + 1)"
    by (simp_all add: nth_append)
  moreover have "R (D ! i) (D ! (i + 1))"
    using sD True by (simp add: sorted_wrt_nth_less)
  ultimately show ?thesis by simp
next
  case False
  then have j: "(D @ F) ! (i + 1) = F ! (i + 1 - length D)" and jlt: "i + 1 - length D < length F"
    using i by (simp_all add: nth_append)
  then have "\<not> P ((D @ F) ! (i + 1))"
    using F by (metis nth_mem)
  then have nP: "\<not> P ((D @ F) ! i)" using same by simp
  have "\<not> i < length D"
  proof
    assume "i < length D"
    then have "(D @ F) ! i = D ! i" "D ! i \<in> set D" by (simp_all add: nth_append)
    with D nP show False by simp
  qed
  then have "(D @ F) ! i = F ! (i - length D)" and "i - length D < i + 1 - length D"
    by (simp_all add: nth_append)
  moreover have "R (F ! (i - length D)) (F ! (i + 1 - length D))"
    using sF jlt \<open>i - length D < i + 1 - length D\<close> by (simp add: sorted_wrt_nth_less)
  ultimately show ?thesis using j by simp
qed

section \<open>The scanner: sizes, order, percentages, levels\<close>

text \<open>
  Claim C1. For every directory that \<open>scanDirectoryWithCache\<close> scans, the scan succeeds
  and the size of the resulting entry is the \<open>int64\<close> sum of the sizes of its children
  plus, when \<open>showFiles\<close> is false, the sizes of the files of the listing that are not
  hidden. No child has a name that starts with a dot, so hidden entries contribute
  nothing. The size of a directory child is the value the cache holds for its path
  after the scan; the size of a file child is the size the listing reports.
\<close>

theorem scan_size_is_sum:
  assumes node: "fs path = Some (FsDir n es)"
  shows "\<exists>e st'. scanDirectoryWithCache fs st path level showFiles = (Inr e, st')
           \<and> Size e = sum_list (map Size (Children e))
                        + (if showFiles then 0 else sum_list (map snd (listedFiles es)))
           \<and> (\<forall>c \<in> set (Children e). \<not> HasPrefix (Name c) ''.'')
           \<and> (\<forall>c \<in> set (Children e). IsDir c \<longrightarrow> sizeCache st' (Path c) = Some (Size c))
           \<and> (\<forall>c \<in> set (Children e). \<not> IsDir c \<longrightarrow> (Name c, Size c) \<in> set (listedFiles es))"
proof -
  obtain r st' where scan: "scanDirectoryWithCache fs st path level showFiles = (r, st')"
    by (cases "scanDirectoryWithCache fs st path level showFiles")
  obtain ds fl tot where
    r: "r = Inr (DirEntry (filepath_Base path) path tot 0
                      (map (withPercent tot) (sort_Slice bySizeDesc ds)
                         @ map (withPercent tot) (sort_Slice bySizeDesc fl))
                      True level)"
    and tot: "tot = sum_list (map Size ds) + sum_list (map Size fl)
                     + (if showFiles then 0 else sum_list (map snd (listedFiles es)))"
    and ds: "\<forall>d \<in> set ds. IsDir d \<and> scanned_child path level d
                          \<and> sizeCache st' (Path d) = Some (Size d)"
    and fl: "\<forall>f \<in> set fl. \<not> IsDir f \<and> scanned_child path level f"
    and fnames: "map (\<lambda>c. (Name c, Size c)) fl = (if showFiles then listedFiles es else [])"
    using scan_dir_result [OF node scan] by blast
  let ?cs = "map (withPercent tot) (sort_Slice bySizeDesc ds)
               @ map (withPercent tot) (sort_Slice bySizeDesc fl)"
  let ?e = "DirEntry (filepath_Base path) path tot 0 ?cs True level"
  have sum: "sum_list (map Size ?cs) = sum_list (map Size ds) + sum_list (map Size fl)"
    by (simp add: comp_def sum_sort_Slice)
  have size: "Size ?e = sum_list (map Size (Children ?e))
                        + (if showFiles then 0 else sum_list (map snd (listedFiles es)))"
    using tot sum by simp
  have hidden: "\<forall>c \<in> set (Children ?e). \<not> HasPrefix (Name c) ''.''"
    using ds fl by (auto simp: set_sort_Slice scanned_child_def)
  have cached: "\<forall>c \<in> set (Children ?e). IsDir c \<longrightarrow> sizeCache st' (Path c) = Some (Size c)"
    using ds fl by (auto simp: set_sort_Slice)
  have files: "\<forall>c \<in> set (Children ?e). \<not> IsDir c \<longrightarrow> (Name c, Size c) \<in> set (listedFiles es)"
  proof (intro ballI impI)
    fix c assume c: "c \<in> set (Children ?e)" and nd: "\<not> IsDir c"
    then obtain f where f: "f \<in> set fl" and c_eq: "c = withPercent tot f"
      using ds by (auto simp: set_sort_Slice)
    then have "(Name f, Size f) \<in> set (map (\<lambda>c. (Name c, Size c)) fl)"
      by auto
    then have "(Name f, Size f) \<in> set (listedFiles es)"
      unfolding fnames by (cases showFiles) simp_all
    with c_eq show "(Name c, Size c) \<in> set (listedFiles es)" by simp
  qed
  from scan r size hidden cached files show ?thesis by blast
qed

theorem scan_size_is_sum_witness:
  "example_fs ''/tmp/x'' = Some (FsDir ''x'' example_listing)
   \<and> (\<exists>e st'. scanDirectoryWithCache example_fs empty_cache ''/tmp/x'' 0 False = (Inr e, st')
           \<and> Size e = sum_list (map Size (Children e)) + 50
           \<and> (\<forall>c \<in> set (Children e). \<not> HasPrefix (Name c) ''.'')
           \<and> (\<forall>c \<in> set (Children e). IsDir c \<longrightarrow> sizeCache st' (Path c) = Some (Size c))
           \<and> (\<forall>c \<in> set (Children e). \<not> IsDir c \<longrightarrow> (Name c, Size c) \<in> {(''readme'', 50)}))"
proof -
  have node: "example_fs ''/tmp/x'' = Some (FsDir ''x'' example_listing)"
    by (simp add: example_fs_def)
  have files: "listedFiles example_listing = [(''readme'', 50)]"
    by (simp add: example_listing_def listedFiles_def HasPrefix_def)
  show ?thesis
    using node scan_size_is_sum [of example_fs "''/tmp/x''" "''x''" example_listing empty_cache 0 False]
    by (simp add: files)
qed

text \<open>
  Claim C3. The children of a scanned directory are its directory children followed by
  its file children: the directory children are exactly the directories of the listing
  that are not hidden, the file children exactly its files that are not hidden (none
  when \<open>showFiles\<close> is false), and within each group the sizes descend, in the signed
  order of \<open>int64\<close>; in particular \<open>children[i].size >= children[i+1].size\<close> for
  neighbours of the same group.
\<close>

theorem scan_children_grouped_sorted:
  assumes node: "fs path = Some (FsDir n es)"
  shows "\<exists>e st'. scanDirectoryWithCache fs st path level showFiles = (Inr e, st')
           \<and> Children e = filter IsDir (Children e) @ filter (\<lambda>c. \<not> IsDir c) (Children e)
           \<and> sorted_wrt (\<lambda>a b. Size b \<le>s Size a) (filter IsDir (Children e))
           \<and> sorted_wrt (\<lambda>a b. Size b \<le>s Size a) (filter (\<lambda>c. \<not> IsDir c) (Children e))
           \<and> mset (map Name (filter IsDir (Children e))) = mset (listedDirs es)
           \<and> mset (map (\<lambda>c. (Name c, Size c)) (filter (\<lambda>c. \<not> IsDir c) (Children e)))
               = (if showFiles then mset (listedFiles es) else {#})
           \<and> (\<forall>i. i + 1 < length (Children e)
                    \<and> IsDir (Children e ! i) = IsDir (Children e ! (i + 1))
                  \<longrightarrow> Size (Children e ! (i + 1)) \<le>s Size (Children e ! i))"
proof -
  obtain r st' where scan: "scanDirectoryWithCache fs st path level showFiles = (r, st')"
    by (cases "scanDirectoryWithCache fs st path level showFiles")
  obtain ds fl tot where
    r: "r = Inr (DirEntry (filepath_Base path) path tot 0
                      (map (withPercent tot) (sort_Slice bySizeDesc ds)
                         @ map (withPercent tot) (sort_Slice bySizeDesc fl))
                      True level)"
    and ds: "\<forall>d \<in> set ds. IsDir d \<and> scanned_child path level d
                          \<and> sizeCache st' (Path d) = Some (Size d)"
    and fl: "\<forall>f \<in> set fl. \<not> IsDir f \<and> scanned_child path level f"
    and dnames: "map Name ds = listedDirs es"
    and fnames: "map (\<lambda>c. (Name c, Size c)) fl = (if showFiles then listedFiles es else [])"
    using scan_dir_result [OF node scan] by blast
  let ?D = "map (withPercent tot) (sort_Slice bySizeDesc ds)"
  let ?F = "map (withPercent tot) (sort_Slice bySizeDesc fl)"
  let ?e = "DirEntry (filepath_Base path) path tot 0 (?D @ ?F) True level"
  have D: "\<forall>d \<in> set ?D. IsDir d" and F: "\<forall>f \<in> set ?F. \<not> IsDir f"
    using ds fl by (auto simp: set_sort_Slice)
  have fD: "filter IsDir (?D @ ?F) = ?D" and fF: "filter (\<lambda>c. \<not> IsDir c) (?D @ ?F) = ?F"
    using filter_groups [of ?D IsDir ?F, OF D F] by blast+
  have sD: "sorted_wrt (\<lambda>a b. Size b \<le>s Size a) ?D"
    and sF: "sorted_wrt (\<lambda>a b. Size b \<le>s Size a) ?F"
    by (simp_all add: sorted_wrt_map sorted_sort_Slice)
  have mD: "mset (map Name ?D) = mset (listedDirs es)"
  proof -
    have "mset (map Name ?D) = image_mset Name (mset (sort_Slice bySizeDesc ds))"
      by (simp add: comp_def)
    also have "\<dots> = mset (map Name ds)" by (simp add: mset_sort_Slice)
    finally show ?thesis using dnames by simp
  qed
  have mF: "mset (map (\<lambda>c. (Name c, Size c)) ?F)
               = (if showFiles then mset (listedFiles es) else {#})"
  proof -
    have "mset (map (\<lambda>c. (Name c, Size c)) ?F)
            = image_mset (\<lambda>c. (Name c, Size c)) (mset (sort_Slice bySizeDesc fl))"
      by (simp add: comp_def)
    also have "\<dots> = mset (map (\<lambda>c. (Name c, Size c)) fl)" by (simp add: mset_sort_Slice)
    finally show ?thesis unfolding fnames by simp
  qed
  have adj: "\<forall>i. i + 1 < length (?D @ ?F)
                    \<and> IsDir ((?D @ ?F) ! i) = IsDir ((?D @ ?F) ! (i + 1))
                  \<longrightarrow> Size ((?D @ ?F) ! (i + 1)) \<le>s Size ((?D @ ?F) ! i)"
    using groups_adjacent [of ?D IsDir ?F "\<lambda>a b. Size b \<le>s Size a", OF D F sD sF] by blast
  have "Children ?e = filter IsDir (Children ?e) @ filter (\<lambda>c. \<not> IsDir c) (Children ?e)"
    using fD fF by simp
  moreover have "sorted_wrt (\<lambda>a b. Size b \<le>s Size a) (filter IsDir (Children ?e))"
    using fD sD by simp
  moreover have "sorted_wrt (\<lambda>a b. Size b \<le>s Size a) (filter (\<lambda>c. \<not> IsDir c) (Children ?e))"
    using fF sF by simp
  moreover have "mset (map Name (filter IsDir (Children ?e))) = mset (listedDirs es)"
    using fD mD by simp
  moreover have "mset (map (\<lambda>c. (Name c, Size c)) (filter (\<lambda>c. \<not> IsDir c) (Children ?e)))
               = (if showFiles then mset (listedFiles es) else {#})"
    using fF mF by simp
  moreover have "\<forall>i. i + 1 < length (Children ?e)
                    \<and> IsDir (Children ?e ! i) = IsDir (Children ?e ! (i + 1))
                  \<longrightarrow> Size (Children ?e ! (i + 1)) \<le>s Size (Children ?e ! i)"
    using adj by simp
  ultimately show ?thesis using scan r by blast
qed

theorem scan_children_grouped_sorted_witness:
  "example_fs ''/tmp/x'' = Some (FsDir ''x'' example_listing)
   \<and> (\<exists>e st'. scanDirectoryWithCache example_fs empty_cache ''/tmp/x'' 0 True = (Inr e, st')
           \<and> Children e = filter IsDir (Children e) @ filter (\<lambda>c. \<not> IsDir c) (Children e)
           \<and> sorted_wrt (\<lambda>a b. Size b \<le>s Size a) (filter IsDir (Children e))
           \<and> sorted_wrt (\<lambda>a b. Size b \<le>s Size a) (filter (\<lambda>c. \<not> IsDir c) (Children e))
           \<and> mset (map Name (filter IsDir (Children e))) = {#''b'', ''a'', ''secret''#}
           \<and> mset (map (\<lambda>c. (Name c, Size c)) (filter (\<lambda>c. \<not> IsDir c) (Children e)))
               = {#(''readme'', 50)#}
           \<and> (\<forall>i. i + 1 < length (Children e)
                    \<and> IsDir (Children e ! i) = IsDir (Children e ! (i + 1))
                  \<longrightarrow> Size (Children e ! (i + 1)) \<le>s Size (Children e ! i)))"
proof -
  have node: "example_fs ''/tmp/x'' = Some (FsDir ''x'' example_listing)"
    by (simp add: example_fs_def)
  have files: "listedFiles example_listing = [(''readme'', 50)]"
    by (simp add: example_listing_def listedFiles_def HasPrefix_def)
  have dirs: "listedDirs example_listing = [''b'', ''a'', ''secret'']"
    by (simp add: example_listing_def listedDirs_def HasPrefix_def)
  show ?thesis
    using node scan_children_grouped_sorted
      [of example_fs "''/tmp/x''" "''x''" example_listing empty_cache 0 True]
    by (simp add: files dirs)
qed

lemmas scan_eval_defs =
  example_fs_def example_listing_def loadDirectory_def scanDirectoryWithCache_def
  os_Stat_def os_ReadDir_def empty_cache_def getCachedSize_def Let_def
  HasPrefix_def filepath_Join_def filepath_Base_def sort_Slice_def bySizeDesc_def
  set_Size_def set_Children_def set_Percent_def percentOf_def word_sless_alt

lemma sint_sum_list:
  fixes xs :: "int64 list"
  assumes "\<forall>x \<in> set xs. 0 \<le>s x" and "sum_list (map sint xs) < 2 ^ 63"
  shows "sint (sum_list xs) = sum_list (map sint xs)"
  using assms
proof (induction xs)
  case Nil
  then show ?case by simp
next
  case (Cons a xs)
  have a0: "0 \<le> sint a" using Cons.prems(1) by (simp add: word_sle_eq)
  have r0: "0 \<le> sum_list (map sint xs)"
    using Cons.prems(1) by (intro sum_list_nonneg) (auto simp: word_sle_eq)
  have rlt: "sum_list (map sint xs) < 2 ^ 63" using Cons.prems(2) a0 by simp
  have IH: "sint (sum_list xs) = sum_list (map sint xs)"
    using Cons.IH Cons.prems(1) rlt by simp
  have "sint (a + sum_list xs) = signed_take_bit 63 (sint a + sint (sum_list xs))"
    by (simp add: sint_word_ariths)
  also have "\<dots> = sint a + sint (sum_list xs)"
    using a0 r0 Cons.prems(2) IH by (intro signed_take_bit_int_eq_self) simp_all
  finally show ?case using IH by simp
qed

lemma sint_member_le_sum:
  fixes xs :: "int64 list"
  assumes "\<forall>x \<in> set xs. 0 \<le>s x" and "x \<in> set xs"
  shows "sint x \<le> sum_list (map sint xs)"
proof -
  have "sint x \<in> set (map sint xs)" using assms(2) by simp
  moreover have "\<forall>y \<in> set (map sint xs). 0 \<le> y" using assms(1) by (auto simp: word_sle_eq)
  ultimately show ?thesis by (meson member_le_sum_list)
qed

lemma percentOf_range:
  assumes "0 \<le> sint c" and "sint c \<le> sint tot" and "0 < sint tot"
  shows "0 \<le> percentOf c tot \<and> percentOf c tot \<le> 100"
proof -
  define a b where "a = sint c" and "b = sint tot"
  define q where "q = real_of_int a / real_of_int b"
  have p: "percentOf c tot = q * 100"
    by (simp only: percentOf_def q_def a_def b_def)
  have "0 \<le> a" "a \<le> b" "0 < b"
    using assms by (simp_all only: a_def b_def)
  then have "0 \<le> q" and "q \<le> 1"
    by (simp_all add: q_def)
  then show ?thesis unfolding p by linarith
qed

lemma scan_file_result:
  assumes "fs path = Some (FsFile n s)"
  shows "scanDirectoryWithCache fs st path level showFiles
           = (Inr (DirEntry (filepath_Base path) path s 0 [] False level), st)"
  using assms by (simp add: scanDirectoryWithCache_def os_Stat_def set_Size_def Let_def)

lemma scan_success_cases:
  assumes "scanDirectoryWithCache fs st path level showFiles = (Inr e, st')"
  shows "(\<exists>n s. fs path = Some (FsFile n s)) \<or> (\<exists>n es. fs path = Some (FsDir n es))"
proof (cases "fs path")
  case None
  with assms show ?thesis by (simp add: scanDirectoryWithCache_def os_Stat_def)
next
  case (Some node)
  with assms show ?thesis
    by (cases node)
       (simp_all add: scanDirectoryWithCache_def os_Stat_def os_ReadDir_def Let_def)
qed

lemma scan_levels:
  assumes scan: "scanDirectoryWithCache fs st path level showFiles = (Inr e, st')"
  shows "Level e = level \<and> (\<forall>c \<in> set (Children e). Level c = level + 1
           \<and> \<not> HasPrefix (Name c) ''.'')"
proof -
  consider n s where "fs path = Some (FsFile n s)" | n es where "fs path = Some (FsDir n es)"
    using scan_success_cases [OF scan] by blast
  then show ?thesis
  proof cases
    case 1
    from scan_file_result [of fs path n s st level showFiles] 1 scan show ?thesis by auto
  next
    case 2
    from scan_dir_result [OF 2 scan] show ?thesis
      by (auto simp: set_sort_Slice scanned_child_def)
  qed
qed

lemma load_example_root:
  "fst (loadDirectory example_fs empty_cache ''/tmp/x'' False) = (Some example_root, None)"
  by (simp add: scan_eval_defs example_root_def)

lemma load_example_a:
  "fst (loadDirectory example_fs empty_cache ''/tmp/x/a'' False) = (Some example_a, None)"
  by (simp add: scan_eval_defs example_a_def)

lemma load_example_secret:
  "fst (loadDirectory example_fs empty_cache ''/tmp/x/secret'' False)
     = (None, Some (PathError ''open'' ''/tmp/x/secret''))"
  by (simp add: scan_eval_defs)

lemma main_example_model:
  "initialModel example_root False = Inr example_model"
  by (simp add: initialModel_def updateVisibleDirs_def example_model_def example_root_def
      filepath_Dir_def Let_def)

text \<open>
  Claim C4, as amended. For every child of a scanned directory: when the parent's total
  is not positive as a signed 64-bit value, the percent is left at 0; when it is
  positive, the percent is the child's size divided by the total, times 100 (in exact
  arithmetic). If, moreover, every counted size (the children's, and the undisplayed
  files' when \<open>showFiles\<close> is false) is non-negative and their exact sum is below
  \<open>2^63\<close>, then a non-zero total is positive and every percent lies between 0 and 100.
\<close>

theorem scan_percent:
  assumes node: "fs path = Some (FsDir n es)"
  shows "\<exists>e st'. scanDirectoryWithCache fs st path level showFiles = (Inr e, st')
           \<and> (\<forall>c \<in> set (Children e).
                 Percent c = (if 0 <s Size e then percentOf (Size c) (Size e) else 0))
           \<and> ((\<forall>s \<in> set (map Size (Children e)
                            @ (if showFiles then [] else map snd (listedFiles es))). 0 \<le>s s)
               \<and> sum_list (map sint (map Size (Children e)
                            @ (if showFiles then [] else map snd (listedFiles es)))) < 2 ^ 63
              \<longrightarrow> (Size e \<noteq> 0 \<longrightarrow> 0 <s Size e)
                  \<and> (\<forall>c \<in> set (Children e). 0 \<le> Percent c \<and> Percent c \<le> 100))"
proof -
  obtain r st' where scan: "scanDirectoryWithCache fs st path level showFiles = (r, st')"
    by (cases "scanDirectoryWithCache fs st path level showFiles")
  obtain ds fl tot where
    r: "r = Inr (DirEntry (filepath_Base path) path tot 0
                      (map (withPercent tot) (sort_Slice bySizeDesc ds)
                         @ map (withPercent tot) (sort_Slice bySizeDesc fl))
                      True level)"
    and tot: "tot = sum_list (map Size ds) + sum_list (map Size fl)
                     + (if showFiles then 0 else sum_list (map snd (listedFiles es)))"
    and ds: "\<forall>d \<in> set ds. IsDir d \<and> scanned_child path level d
                          \<and> sizeCache st' (Path d) = Some (Size d)"
    and fl: "\<forall>f \<in> set fl. \<not> IsDir f \<and> scanned_child path level f"
    using scan_dir_result [OF node scan] by blast
  let ?cs = "map (withPercent tot) (sort_Slice bySizeDesc ds)
               @ map (withPercent tot) (sort_Slice bySizeDesc fl)"
  let ?e = "DirEntry (filepath_Base path) path tot 0 ?cs True level"
  let ?counted = "map Size ?cs @ (if showFiles then [] else map snd (listedFiles es))"
  have pct: "\<forall>c \<in> set ?cs. Percent c = (if 0 <s tot then percentOf (Size c) tot else 0)"
    using ds fl by (auto simp: set_sort_Slice withPercent_Percent scanned_child_def)
  have tot_counted: "tot = sum_list ?counted"
    using tot by (simp add: comp_def sum_sort_Slice)
  have range: "(tot \<noteq> 0 \<longrightarrow> 0 <s tot) \<and> (\<forall>c \<in> set ?cs. 0 \<le> Percent c \<and> Percent c \<le> 100)"
    if nonneg: "\<forall>s \<in> set ?counted. 0 \<le>s s" and small: "sum_list (map sint ?counted) < 2 ^ 63"
  proof -
    have sint_tot: "sint tot = sum_list (map sint ?counted)"
      unfolding tot_counted [symmetric] using sint_sum_list [OF nonneg small] tot_counted by simp
    have tot0: "0 \<le> sint tot"
      unfolding sint_tot using nonneg by (intro sum_list_nonneg) (auto simp: word_sle_eq)
    have pos: "0 <s tot" if "tot \<noteq> 0"
    proof -
      have "sint tot \<noteq> 0" using that by (metis signed_eq_0_iff)
      with tot0 show ?thesis by (simp add: word_sless_alt)
    qed
    have "0 \<le> Percent c \<and> Percent c \<le> 100" if c: "c \<in> set ?cs" for c
    proof (cases "0 <s tot")
      case True
      have mem: "Size c \<in> set ?counted" using c by auto
      have le: "sint (Size c) \<le> sint tot"
        unfolding sint_tot using sint_member_le_sum [OF nonneg mem] .
      have c0: "0 \<le> sint (Size c)" using nonneg mem by (auto simp: word_sle_eq)
      have t0: "0 < sint tot" using True by (simp add: word_sless_alt)
      have "0 \<le> percentOf (Size c) tot \<and> percentOf (Size c) tot \<le> 100"
        using percentOf_range [OF c0 le t0] .
      with pct c True show ?thesis by simp
    next
      case False
      with pct c show ?thesis by simp
    qed
    with pos show ?thesis by blast
  qed
  have "(\<forall>c \<in> set (Children ?e).
                 Percent c = (if 0 <s Size ?e then percentOf (Size c) (Size ?e) else 0))"
    using pct by simp
  moreover have "(\<forall>s \<in> set (map Size (Children ?e)
                            @ (if showFiles then [] else map snd (listedFiles es))). 0 \<le>s s)
               \<and> sum_list (map sint (map Size (Children ?e)
                            @ (if showFiles then [] else map snd (listedFiles es)))) < 2 ^ 63
              \<longrightarrow> (Size ?e \<noteq> 0 \<longrightarrow> 0 <s Size ?e)
                  \<and> (\<forall>c \<in> set (Children ?e). 0 \<le> Percent c \<and> Percent c \<le> 100)"
    using range by simp
  ultimately show ?thesis using scan r by blast
qed

theorem scan_percent_witness:
  "example_fs ''/tmp/x'' = Some (FsDir ''x'' example_listing)
   \<and> (\<exists>e st'. scanDirectoryWithCache example_fs empty_cache ''/tmp/x'' 0 False = (Inr e, st')
         \<and> Size e = 450 \<and> map Size (Children e) = [300, 100, 0]
         \<and> map Percent (Children e) = [200 / 3, 200 / 9, 0]
         \<and> (\<forall>c \<in> set (Children e). 0 \<le> Percent c \<and> Percent c \<le> 100))"
proof -
  have node: "example_fs ''/tmp/x'' = Some (FsDir ''x'' example_listing)"
    by (simp add: example_fs_def)
  have files: "listedFiles example_listing = [(''readme'', 50)]"
    by (simp add: example_listing_def listedFiles_def HasPrefix_def)
  have eval: "fst (scanDirectoryWithCache example_fs empty_cache ''/tmp/x'' 0 False)
      = Inr (DirEntry ''x'' ''/tmp/x'' 450 0
         [DirEntry ''a'' ''/tmp/x/a'' 300 (200 / 3) [] True 1,
          DirEntry ''b'' ''/tmp/x/b'' 100 (200 / 9) [] True 1,
          DirEntry ''secret'' ''/tmp/x/secret'' 0 0 [] True 1] True 0)"
    by (simp add: scan_eval_defs)
  obtain e st' where
    scan: "scanDirectoryWithCache example_fs empty_cache ''/tmp/x'' 0 False = (Inr e, st')"
    and rng: "(\<forall>s \<in> set (map Size (Children e)
                            @ (if False then [] else map snd (listedFiles example_listing))). 0 \<le>s s)
               \<and> sum_list (map sint (map Size (Children e)
                            @ (if False then [] else map snd (listedFiles example_listing)))) < 2 ^ 63
              \<longrightarrow> (Size e \<noteq> 0 \<longrightarrow> 0 <s Size e)
                  \<and> (\<forall>c \<in> set (Children e). 0 \<le> Percent c \<and> Percent c \<le> 100)"
    using scan_percent [of example_fs "''/tmp/x''" "''x''" example_listing empty_cache 0 False] node
    by blast
  have e: "e = DirEntry ''x'' ''/tmp/x'' 450 0
         [DirEntry ''a'' ''/tmp/x/a'' 300 (200 / 3) [] True 1,
          DirEntry ''b'' ''/tmp/x/b'' 100 (200 / 9) [] True 1,
          DirEntry ''secret'' ''/tmp/x/secret'' 0 0 [] True 1] True 0"
    using scan eval by simp
  have "(\<forall>s \<in> set (map Size (Children e)
                            @ (if False then [] else map snd (listedFiles example_listing))). 0 \<le>s s)
               \<and> sum_list (map sint (map Size (Children e)
                            @ (if False then [] else map snd (listedFiles example_listing)))) < 2 ^ 63"
    unfolding e by (simp add: files word_sle_eq)
  with rng have "\<forall>c \<in> set (Children e). 0 \<le> Percent c \<and> Percent c \<le> 100"
    by blast
  moreover have "Size e = 450" "map Size (Children e) = [300, 100, 0]"
    "map Percent (Children e) = [200 / 3, 200 / 9, 0]"
    unfolding e by simp_all
  ultimately show ?thesis using node scan by auto
qed

text \<open>
  The claim as stated fails where the sum wraps around: two files of \<open>2^62\<close> bytes give
  the total \<open>-2^63\<close>, which is not zero, and the guard \<open>totalSize > 0\<close> leaves both
  percents at 0, where size / total * 100 is -50.
\<close>

theorem scan_percent_counterexample:
  "fst (scanDirectoryWithCache overflow_fs empty_cache ''/big'' 0 True)
     = Inr (DirEntry ''big'' ''/big'' 9223372036854775808 0
         [DirEntry ''a'' ''/big/a'' 4611686018427387904 0 [] False 1,
          DirEntry ''b'' ''/big/b'' 4611686018427387904 0 [] False 1] True 0)
   \<and> (9223372036854775808 :: int64) \<noteq> 0
   \<and> sint (9223372036854775808 :: int64) = - 9223372036854775808
   \<and> percentOf 4611686018427387904 9223372036854775808 = - 50"
  by (simp add: overflow_fs_def scanDirectoryWithCache_def os_Stat_def os_ReadDir_def Let_def
      HasPrefix_def filepath_Join_def filepath_Base_def sort_Slice_def bySizeDesc_def
      set_Size_def set_Children_def set_Percent_def percentOf_def word_sless_alt)

text \<open>
  Claim C8, as amended. \<open>loadDirectory\<close> scans the requested root at level 0 and the scan
  gives every child the level of its parent plus one: the root entry has level 0 and
  every direct child of the root has level 1. In the visible list that \<open>Update\<close>
  builds from the result, only the synthetic parent entry \<open>..\<close> has level 0.
\<close>

theorem load_levels:
  assumes load: "loadDirectory fs st path showFiles = ((Some dir, err), st')"
  shows "Level dir = 0 \<and> (\<forall>c \<in> set (Children dir). Level c = 1)
         \<and> (\<forall>m m' cmd. Update m (LoadingCompleteMsg (Some dir) None) = Inr (m', cmd)
              \<longrightarrow> (\<forall>c \<in> set (VisibleDirs m'). Level c = (if Name c = ''..'' then 0 else 1)))"
proof -
  obtain e where scan: "scanDirectoryWithCache fs st path 0 showFiles = (Inr e, st')"
    and dir: "dir = set_Percent 100 e"
    using load by (auto simp: loadDirectory_def split: prod.splits sum.splits)
  have lv: "Level dir = 0" and ch: "\<forall>c \<in> set (Children dir). Level c = 1 \<and> \<not> HasPrefix (Name c) ''.''"
    using scan_levels [OF scan] dir by (simp_all add: set_Percent_def)
  have vis: "\<forall>c \<in> set (VisibleDirs m'). Level c = (if Name c = ''..'' then 0 else 1)"
    if upd: "Update m (LoadingCompleteMsg (Some dir) None) = Inr (m', cmd)" for m m' cmd
  proof -
    have names: "\<forall>c \<in> set (Children dir). Name c \<noteq> ''..''"
      using ch by (auto simp: HasPrefix_def)
    have "VisibleDirs (ensureCursorVisible x) = VisibleDirs x" for x
      by (simp add: ensureCursorVisible_def Let_def)
    with upd have "set (VisibleDirs m')
        \<subseteq> insert (DirEntry ''..'' (filepath_Dir (Path dir)) 0 0 [] True 0) (set (Children dir))"
      by (auto simp: updateVisibleDirs_def Let_def split: if_splits)
    with ch names show ?thesis by auto
  qed
  from lv ch vis show ?thesis by blast
qed

theorem load_levels_witness:
  "loadDirectory example_fs empty_cache ''/tmp/x/a'' False
     = ((Some example_a, None), snd (loadDirectory example_fs empty_cache ''/tmp/x/a'' False))
   \<and> Level example_a = 0 \<and> map Level (Children example_a) = [1]
   \<and> (\<exists>m'. Update example_model (LoadingCompleteMsg (Some example_a) None) = Inr (m', NoCmd)
         \<and> map Name (VisibleDirs m') = [''..'', ''sub'']
         \<and> (\<forall>c \<in> set (VisibleDirs m'). Level c = (if Name c = ''..'' then 0 else 1)))"
proof -
  let ?st' = "snd (loadDirectory example_fs empty_cache ''/tmp/x/a'' False)"
  have load: "loadDirectory example_fs empty_cache ''/tmp/x/a'' False = ((Some example_a, None), ?st')"
    using load_example_a by (simp add: prod_eq_iff)
  note levels = load_levels [OF load]
  define m' where "m' = example_model
        \<lparr> RootDir := Some example_a,
          VisibleDirs := DirEntry ''..'' ''/tmp/x'' 0 0 [] True 0 # Children example_a \<rparr>"
  have upd: "Update example_model (LoadingCompleteMsg (Some example_a) None) = Inr (m', NoCmd)"
    by (simp add: m'_def example_model_def example_a_def updateVisibleDirs_def
        ensureCursorVisible_def filepath_Dir_def len_def Let_def)
  have vis: "\<forall>c \<in> set (VisibleDirs m'). Level c = (if Name c = ''..'' then 0 else 1)"
    using levels upd by blast
  have names: "map Name (VisibleDirs m') = [''..'', ''sub'']"
    by (simp add: m'_def example_a_def)
  have lv: "Level example_a = 0" and ch: "map Level (Children example_a) = [1]"
    by (simp_all add: example_a_def)
  show ?thesis
    by (intro conjI exI [of _ m'] load lv ch upd names vis)
qed

text \<open>
  The claim as stated fails on any directory with a child: the direct child \<open>sub\<close> of
  the root \<open>/tmp/x/a\<close> carries level 1, not 0.
\<close>

theorem load_levels_counterexample:
  "fst (loadDirectory example_fs empty_cache ''/tmp/x/a'' False)
     = (Some (DirEntry ''a'' ''/tmp/x/a'' 300 100
          [DirEntry ''sub'' ''/tmp/x/a/sub'' 100 (100 / 3) [] True 1] True 0), None)"
  by (simp add: scan_eval_defs)

section \<open>The navigation model: loading, the parent entry\<close>

text \<open>
  Claim C9. While \<open>m.Loading\<close> is set, a key message leaves the whole model unchanged
  (root, visible list, cursor and scroll position among its fields) and returns no
  command, so no load request is issued; only \<open>q\<close> and \<open>ctrl+c\<close> return \<open>tea.Quit\<close>.
\<close>

theorem loading_ignores_keys:
  assumes "Loading m"
  shows "Update m (KeyMsg key)
           = Inr (m, if key = ''q'' \<or> key = ''ctrl+c'' then Quit else NoCmd)"
  using assms by simp

text \<open>
  The witness also shows that the same key does issue a load request when the model
  is not loading.
\<close>

theorem loading_ignores_keys_witness:
  "Loading (example_model\<lparr>Loading := True, LoadingPath := ''/tmp/x/a''\<rparr>)
   \<and> Update (example_model\<lparr>Loading := True, LoadingPath := ''/tmp/x/a''\<rparr>) (KeyMsg ''enter'')
       = Inr (example_model\<lparr>Loading := True, LoadingPath := ''/tmp/x/a''\<rparr>, NoCmd)
   \<and> Update (example_model\<lparr>Loading := True, LoadingPath := ''/tmp/x/a''\<rparr>) (KeyMsg ''q'')
       = Inr (example_model\<lparr>Loading := True, LoadingPath := ''/tmp/x/a''\<rparr>, Quit)
   \<and> handleKey example_model ''enter'' = Inr (example_model, SendLoadingMsg ''/tmp'')"
proof -
  let ?m = "example_model\<lparr>Loading := True, LoadingPath := ''/tmp/x/a''\<rparr>"
  have l: "Loading ?m" by simp
  have "handleKey example_model ''enter'' = Inr (example_model, SendLoadingMsg ''/tmp'')"
    by (simp add: handleKey_def example_model_def example_root_def len_def filepath_Dir_def Let_def)
  then show ?thesis
    using loading_ignores_keys [OF l, of "''enter''"] loading_ignores_keys [OF l, of "''q''"]
    by simp
qed

text \<open>The only path that is its own \<open>filepath.Dir\<close> is the filesystem root.\<close>

lemma filepath_Dir_fixpoint: "filepath_Dir p = p \<longleftrightarrow> p = ''/''"
proof
  assume eq: "filepath_Dir p = p"
  define w where "w = dropWhile (\<lambda>c. c \<noteq> CHR ''/'') (rev p)"
  have dir: "filepath_Dir p = (if rev (drop 1 w) = [] then ''/'' else rev (drop 1 w))"
    by (simp add: filepath_Dir_def Let_def w_def)
  have w_le: "length w \<le> length p"
    unfolding w_def using length_dropWhile_le [of "\<lambda>c. c \<noteq> CHR ''/''" "rev p"] by simp
  show "p = ''/''"
  proof (cases "rev (drop 1 w) = []")
    case True
    with eq dir show ?thesis by simp
  next
    case False
    then have "w \<noteq> []" by auto
    then have "length (rev (drop 1 w)) < length w" by simp
    with w_le have lt: "length (rev (drop 1 w)) < length p" by simp
    from False eq dir have "rev (drop 1 w) = p" by simp
    then have "length (rev (drop 1 w)) = length p" by (rule arg_cong)
    with lt show ?thesis by linarith
  qed
next
  assume "p = ''/''"
  then show "filepath_Dir p = p" by (simp add: filepath_Dir_def)
qed

text \<open>
  Claim C10. When the active root is not the filesystem root, \<open>updateVisibleDirs\<close> puts
  the synthetic parent entry at index 0 of the visible list: it is a directory, its path
  is \<open>filepath.Dir\<close> of the root's path, and its size and percent are the zero values,
  which is what the row \<open>View\<close> renders for it shows. The rest of the list is the
  root's children (the directories only, when files are not shown).
\<close>

theorem parent_entry_first:
  assumes root: "RootDir m = Some rootDir"
    and notroot: "filepath_Dir (Path rootDir) \<noteq> Path rootDir"
  shows "\<exists>m'. updateVisibleDirs m = Inr m'
           \<and> VisibleDirs m' ! 0 = DirEntry ''..'' (filepath_Dir (Path rootDir)) 0 0 [] True 0
           \<and> VisibleDirs m' \<noteq> []
           \<and> IsDir (VisibleDirs m' ! 0)
           \<and> Path (VisibleDirs m' ! 0) = filepath_Dir (Path rootDir)
           \<and> Size (VisibleDirs m' ! 0) = 0 \<and> Percent (VisibleDirs m' ! 0) = 0
           \<and> row_Size (viewRow m' 0) = 0 \<and> row_Percent (viewRow m' 0) = 0
           \<and> tl (VisibleDirs m') = filter (\<lambda>child. IsDir child \<or> ShowFiles m) (Children rootDir)"
  using assms by (simp add: updateVisibleDirs_def viewRow_def Let_def)

theorem parent_entry_first_witness:
  "RootDir example_model = Some example_root
   \<and> filepath_Dir (Path example_root) \<noteq> Path example_root
   \<and> (\<exists>m'. updateVisibleDirs example_model = Inr m'
           \<and> VisibleDirs m' ! 0 = DirEntry ''..'' ''/tmp'' 0 0 [] True 0
           \<and> VisibleDirs m' \<noteq> []
           \<and> IsDir (VisibleDirs m' ! 0)
           \<and> Path (VisibleDirs m' ! 0) = ''/tmp''
           \<and> Size (VisibleDirs m' ! 0) = 0 \<and> Percent (VisibleDirs m' ! 0) = 0
           \<and> row_Size (viewRow m' 0) = 0 \<and> row_Percent (viewRow m' 0) = 0
           \<and> tl (VisibleDirs m') = Children example_root)"
proof -
  have r: "RootDir example_model = Some example_root" by (simp add: example_model_def)
  have d: "filepath_Dir (Path example_root) = ''/tmp''"
    by (simp add: example_root_def filepath_Dir_def)
  have p: "Path example_root = ''/tmp/x''" by (simp add: example_root_def)
  have n: "filepath_Dir (Path example_root) \<noteq> Path example_root"
    by (simp add: example_root_def filepath_Dir_def)
  have f: "filter (\<lambda>child. IsDir child \<or> ShowFiles example_model) (Children example_root)
             = Children example_root"
    by (simp add: example_root_def example_model_def)
  show ?thesis
    using parent_entry_first [OF r n] r n unfolding d f by simp
qed

section \<open>The size cache: memoization\<close>

text \<open>
  Whatever holds of the cache and is kept by every \<open>getCachedSize\<close> is kept by the scan
  loop, by a scan and by any number of scans.
\<close>

lemma scanLoop_cache_preserves:
  assumes step: "\<And>st p node. Q st \<Longrightarrow> Q (snd (getCachedSize st p node))"
    and "Q st"
  shows "Q (snd (snd (snd (scanLoop path level sf es (t, ds, fs, st)))))"
  using \<open>Q st\<close>
proof (induction es arbitrary: t ds fs st)
  case Nil
  then show ?case by simp
next
  case (Cons e es)
  show ?case
  proof (cases "HasPrefix (entry_Name e) ''.'' \<or> entry_Info e = None")
    case True
    then show ?thesis using Cons by (auto simp: Let_def)
  next
    case False
    then obtain info where info: "entry_Info e = Some info" and vis: "\<not> HasPrefix (entry_Name e) ''.''"
      by auto
    show ?thesis
    proof (cases "info_IsDir info")
      case True
      obtain sz st2 where g: "getCachedSize st (filepath_Join path (entry_Name e)) e = (sz, st2)"
        by (cases "getCachedSize st (filepath_Join path (entry_Name e)) e")
      have "Q st2" using step [OF Cons.prems, of "filepath_Join path (entry_Name e)" e] g by simp
      then show ?thesis using info vis True g Cons.IH by (simp add: Let_def)
    next
      case False
      then show ?thesis using info vis Cons by (cases sf) (simp_all add: Let_def)
    qed
  qed
qed

lemma scan_cache_preserves:
  assumes step: "\<And>st p node. Q st \<Longrightarrow> Q (snd (getCachedSize st p node))"
    and "Q st"
  shows "Q (snd (scanDirectoryWithCache fs st path level sf))"
proof (cases "os_Stat fs path")
  case (Inl err)
  then show ?thesis using \<open>Q st\<close> by (simp add: scanDirectoryWithCache_def)
next
  case (Inr info)
  show ?thesis
  proof (cases "info_IsDir info")
    case False
    with Inr show ?thesis using \<open>Q st\<close> by (simp add: scanDirectoryWithCache_def Let_def)
  next
    case True
    show ?thesis
    proof (cases "os_ReadDir fs path")
      case (Inl err)
      with Inr True show ?thesis using \<open>Q st\<close> by (simp add: scanDirectoryWithCache_def Let_def)
    next
      case es: (Inr es)
      have "Q (snd (snd (snd (scanLoop path level sf es (0, [], [], st)))))"
        using scanLoop_cache_preserves [of Q st, OF step \<open>Q st\<close>] by simp
      with Inr True es show ?thesis
        by (auto simp: scanDirectoryWithCache_def Let_def split: prod.splits)
    qed
  qed
qed

lemma scans_cache_preserves:
  assumes step: "\<And>st p node. Q st \<Longrightarrow> Q (snd (getCachedSize st p node))"
    and "Q st"
  shows "Q (scans st loads)"
  using \<open>Q st\<close>
proof (induction loads arbitrary: st)
  case Nil
  then show ?case by simp
next
  case (Cons l loads)
  obtain fs path sf where l: "l = (fs, path, sf)" by (cases l)
  have "Q (snd (scanDirectoryWithCache fs st path 0 sf))"
    using scan_cache_preserves [of Q st, OF step Cons.prems] by simp
  then show ?case using Cons.IH l by simp
qed

lemma getCachedSize_inv:
  assumes "cache_inv st"
  shows "cache_inv (snd (getCachedSize st p node))"
proof (cases "sizeCache st p")
  case None
  with assms have "Traversed p \<notin> set (events st)" "Stored p \<notin> set (events st)"
    by (auto simp: cache_inv_def)
  with assms None show ?thesis
    by (auto simp: cache_inv_def getCachedSize_def Let_def)
next
  case (Some v)
  with assms show ?thesis by (simp add: getCachedSize_def)
qed

lemma distinct_count_le_1: "distinct xs \<Longrightarrow> count_list xs x \<le> 1"
  by (induction xs) (auto simp: count_list_0_iff)

lemma getCachedSize_twice:
  "getCachedSize (snd (getCachedSize st p n1)) p n2
     = (fst (getCachedSize st p n1), snd (getCachedSize st p n1))"
proof -
  obtain v st1 where g: "getCachedSize st p n1 = (v, st1)"
    by (cases "getCachedSize st p n1")
  have "sizeCache st1 p = Some v" using getCachedSize_stores [OF g] .
  then have "getCachedSize st1 p n2 = (v, st1)" by (simp add: getCachedSize_def)
  with g show ?thesis by simp
qed

text \<open>
  A miss traverses and stores exactly once; three scans of the example tree log each
  directory once, although \<open>/tmp/x\<close> is scanned twice.
\<close>

lemma getCachedSize_miss:
  "sizeCache st p = None \<Longrightarrow>
   getCachedSize st p node
     = (calculateFullDirSize node,
        \<lparr> sizeCache = (sizeCache st)(p \<mapsto> calculateFullDirSize node),
          events = events st @ [Traversed p, Stored p] \<rparr>)"
  by (simp add: getCachedSize_def Let_def)

lemma scans_example_events:
  "events (scans empty_cache [(example_fs, ''/tmp/x'', False), (example_fs, ''/tmp/x/a'', False),
                              (example_fs, ''/tmp/x'', False)])
     = [Traversed ''/tmp/x/b'', Stored ''/tmp/x/b'', Traversed ''/tmp/x/a'', Stored ''/tmp/x/a'',
        Traversed ''/tmp/x/secret'', Stored ''/tmp/x/secret'',
        Traversed ''/tmp/x/a/sub'', Stored ''/tmp/x/a/sub'']"
  by (simp add: scan_eval_defs)

text \<open>
  Claim C5. A second \<open>getCachedSize\<close> for the same path returns the value of the first
  and leaves the cache and its log as they were, so it neither traverses nor stores,
  whatever the filesystem holds by then. Over the scans of a process, started on the
  empty cache, the traversal for a path is run at most once and its entry is stored at
  most once; and once a value is returned for a path, the entry keeps that value through
  all later scans. (Calls are taken one after the other, as the claim has them.)
\<close>

theorem cache_memoizes:
  "fst (getCachedSize (snd (getCachedSize st p n1)) p n2) = fst (getCachedSize st p n1)
   \<and> snd (getCachedSize (snd (getCachedSize st p n1)) p n2) = snd (getCachedSize st p n1)
   \<and> count_list (events (scans empty_cache loads)) (Traversed p) \<le> 1
   \<and> count_list (events (scans empty_cache loads)) (Stored p) \<le> 1
   \<and> sizeCache (scans (snd (getCachedSize st p n1)) loads) p = Some (fst (getCachedSize st p n1))"
proof -
  have "cache_inv empty_cache" by (simp add: cache_inv_def empty_cache_def)
  then have "cache_inv (scans empty_cache loads)"
    using scans_cache_preserves [of cache_inv empty_cache loads] getCachedSize_inv by blast
  then have d: "distinct (events (scans empty_cache loads))" by (simp add: cache_inv_def)
  obtain v st1 where g: "getCachedSize st p n1 = (v, st1)"
    by (cases "getCachedSize st p n1")
  have keep: "sizeCache s p = Some v \<Longrightarrow> sizeCache (snd (getCachedSize s q node)) p = Some v"
    for s q node
    using getCachedSize_keeps [of s q node "fst (getCachedSize s q node)" "snd (getCachedSize s q node)" p v]
    by simp
  have "sizeCache st1 p = Some v" using getCachedSize_stores [OF g] .
  then have "sizeCache (scans st1 loads) p = Some v"
    using scans_cache_preserves [of "\<lambda>s. sizeCache s p = Some v" st1 loads] keep by blast
  then show ?thesis
    using g getCachedSize_twice [of st p n1 n2] distinct_count_le_1 [OF d] by simp
qed

theorem cache_memoizes_witness:
  "fst (getCachedSize empty_cache ''/tmp/x/a'' (FsDir ''a'' [FsFile ''g'' 200, FsDir ''sub'' [FsFile ''h'' 100]]))
     = 300
   \<and> fst (getCachedSize
            (snd (getCachedSize empty_cache ''/tmp/x/a''
                    (FsDir ''a'' [FsFile ''g'' 200, FsDir ''sub'' [FsFile ''h'' 100]])))
            ''/tmp/x/a'' (FsDir ''a'' [])) = 300
   \<and> count_list (events (scans empty_cache
          [(example_fs, ''/tmp/x'', False), (example_fs, ''/tmp/x/a'', False),
           (example_fs, ''/tmp/x'', False)])) (Traversed ''/tmp/x/a'') = 1
   \<and> count_list (events (scans empty_cache
          [(example_fs, ''/tmp/x'', False), (example_fs, ''/tmp/x/a'', False),
           (example_fs, ''/tmp/x'', False)])) (Stored ''/tmp/x/a'') = 1"
proof -
  have first: "fst (getCachedSize empty_cache ''/tmp/x/a''
        (FsDir ''a'' [FsFile ''g'' 200, FsDir ''sub'' [FsFile ''h'' 100]])) = 300"
    by (simp add: getCachedSize_def empty_cache_def HasPrefix_def Let_def)
  have second: "fst (getCachedSize
            (snd (getCachedSize empty_cache ''/tmp/x/a''
                    (FsDir ''a'' [FsFile ''g'' 200, FsDir ''sub'' [FsFile ''h'' 100]])))
            ''/tmp/x/a'' (FsDir ''a'' [])) = 300"
    using cache_memoizes [of empty_cache "''/tmp/x/a''"
        "FsDir ''a'' [FsFile ''g'' 200, FsDir ''sub'' [FsFile ''h'' 100]]" "FsDir ''a'' []" "[]"]
      first
    by simp
  have traversed: "count_list (events (scans empty_cache
          [(example_fs, ''/tmp/x'', False), (example_fs, ''/tmp/x/a'', False),
           (example_fs, ''/tmp/x'', False)])) (Traversed ''/tmp/x/a'') = 1"
    unfolding scans_example_events by simp
  have stored: "count_list (events (scans empty_cache
          [(example_fs, ''/tmp/x'', False), (example_fs, ''/tmp/x/a'', False),
           (example_fs, ''/tmp/x'', False)])) (Stored ''/tmp/x/a'') = 1"
    unfolding scans_example_events by simp
  show ?thesis
    by (intro conjI first second traversed stored)
qed

section \<open>Navigation: keys, pages and the viewport\<close>

lemmas nav_eval_defs =
  handleKey_def ensureCursorVisible_def updateVisibleDirs_def example_model_def
  example_root_def example_a_def len_def filepath_Dir_def Let_def

lemma main_empty_root_model:
  "initialModel (DirEntry ''/'' ''/'' 0 100 [] True 0) False = Inr empty_root_model"
  by (simp add: initialModel_def updateVisibleDirs_def empty_root_model_def filepath_Dir_def Let_def)

text \<open>What \<open>ensureCursorVisible\<close> leaves alone, and what it does to the scroll position.\<close>

lemma ensureCursorVisible_fields [simp]:
  "CursorPos (ensureCursorVisible m) = CursorPos m"
  "VisibleDirs (ensureCursorVisible m) = VisibleDirs m"
  "Height (ensureCursorVisible m) = Height m"
  "RootDir (ensureCursorVisible m) = RootDir m"
  "Loading (ensureCursorVisible m) = Loading m"
  "Error (ensureCursorVisible m) = Error m"
  by (simp_all add: ensureCursorVisible_def Let_def)

lemma ensureCursorVisible_scroll:
  assumes "VisibleDirs m \<noteq> []"
  shows "ScrollPos (ensureCursorVisible m)
           = min (max 0 (if CursorPos m < ScrollPos m then CursorPos m
                         else if CursorPos m \<ge> ScrollPos m + (Height m - 2)
                         then CursorPos m - (Height m - 2) + 1
                         else ScrollPos m))
                 (max (len (VisibleDirs m) - (Height m - 2)) 0)"
  using assms by (auto simp: ensureCursorVisible_def Let_def len_def)

lemma ensureCursorVisible_ok:
  assumes "VisibleDirs m \<noteq> [] \<longrightarrow> 0 \<le> CursorPos m \<and> CursorPos m < len (VisibleDirs m)"
  shows "viewport_ok (ensureCursorVisible m)"
proof (cases "VisibleDirs m = []")
  case True
  then show ?thesis by (simp add: viewport_ok_def)
next
  case False
  with assms have c: "0 \<le> CursorPos m" "CursorPos m < len (VisibleDirs m)" by simp_all
  show ?thesis
    unfolding viewport_ok_def ensureCursorVisible_fields ensureCursorVisible_scroll [OF False]
    using c by auto
qed

text \<open>The inner \<open>switch\<close> of \<open>Update\<close>, key by key.\<close>

lemma handleKey_quit:
  "key = ''q'' \<or> key = ''ctrl+c'' \<Longrightarrow> handleKey m key = Inr (m, Quit)"
  by (simp add: handleKey_def)

lemma handleKey_up:
  "key = ''up'' \<or> key = ''k'' \<Longrightarrow>
   handleKey m key =
     (if CursorPos m > 0
      then Inr (ensureCursorVisible (m\<lparr>CursorPos := CursorPos m - 1\<rparr>), NoCmd)
      else Inr (m, NoCmd))"
  by (elim disjE) (simp_all add: handleKey_def)

lemma handleKey_down:
  "key = ''down'' \<or> key = ''j'' \<Longrightarrow>
   handleKey m key =
     (if CursorPos m < len (VisibleDirs m) - 1
      then Inr (ensureCursorVisible (m\<lparr>CursorPos := CursorPos m + 1\<rparr>), NoCmd)
      else Inr (m, NoCmd))"
  by (elim disjE) (simp_all add: handleKey_def)

lemma handleKey_home:
  "key = ''home'' \<or> key = ''g'' \<Longrightarrow>
   handleKey m key = Inr (ensureCursorVisible (m\<lparr>CursorPos := 0\<rparr>), NoCmd)"
  by (elim disjE) (simp_all add: handleKey_def)

lemma handleKey_end:
  "key = ''end'' \<or> key = ''G'' \<Longrightarrow>
   handleKey m key =
     (if len (VisibleDirs m) > 0
      then Inr (ensureCursorVisible (m\<lparr>CursorPos := len (VisibleDirs m) - 1\<rparr>), NoCmd)
      else Inr (m, NoCmd))"
  by (elim disjE) (simp_all add: handleKey_def)

lemma handleKey_pgup:
  "handleKey m ''pgup'' =
     Inr (ensureCursorVisible (m\<lparr>CursorPos := max (CursorPos m - (Height m - 2)) 0\<rparr>), NoCmd)"
  by (simp add: handleKey_def Let_def max_def)

lemma handleKey_pgdown:
  "handleKey m ''pgdown'' =
     Inr (ensureCursorVisible
            (m\<lparr>CursorPos := (if CursorPos m + (Height m - 2) \<ge> len (VisibleDirs m)
                              then len (VisibleDirs m) - 1
                              else CursorPos m + (Height m - 2))\<rparr>), NoCmd)"
  by (simp add: handleKey_def Let_def)

lemma handleKey_enter_back:
  "key = ''enter'' \<or> key = ''backspace'' \<or> key = ''h'' \<Longrightarrow>
   handleKey m key = Inr (m', cmd) \<Longrightarrow> m' = m"
  by (elim disjE)
     (auto simp: handleKey_def Let_def split: if_splits option.splits)

lemma handleKey_other:
  "key \<notin> {''q'', ''ctrl+c'', ''up'', ''k'', ''down'', ''j'', ''enter'', ''backspace'', ''h'',
            ''home'', ''g'', ''end'', ''G'', ''pgup'', ''pgdown''} \<Longrightarrow>
   handleKey m key = Inr (m, NoCmd)"
  by (simp add: handleKey_def)

text \<open>
  Claim C6, as amended. In a state that is not loading, with a terminal of at least two
  rows, a non-empty visible list and the cursor on one of its entries, page-down moves
  the cursor down by \<open>Height - 2\<close> rows (the rows that fit under the header) and page-up
  moves it up by as many, clamped so that the resulting cursor lies in
  \<open>[0, len(visibleList) - 1]\<close>.
\<close>

theorem page_moves:
  assumes "\<not> Loading m" and "2 \<le> Height m" and "VisibleDirs m \<noteq> []"
    and "0 \<le> CursorPos m" and "CursorPos m < len (VisibleDirs m)"
  shows "(\<exists>m'. Update m (KeyMsg ''pgdown'') = Inr (m', NoCmd)
            \<and> CursorPos m' = min (CursorPos m + (Height m - 2)) (len (VisibleDirs m) - 1)
            \<and> VisibleDirs m' = VisibleDirs m
            \<and> 0 \<le> CursorPos m' \<and> CursorPos m' \<le> len (VisibleDirs m) - 1)
       \<and> (\<exists>m'. Update m (KeyMsg ''pgup'') = Inr (m', NoCmd)
            \<and> CursorPos m' = max (CursorPos m - (Height m - 2)) 0
            \<and> VisibleDirs m' = VisibleDirs m
            \<and> 0 \<le> CursorPos m' \<and> CursorPos m' \<le> len (VisibleDirs m) - 1)"
  using assms by (simp add: handleKey_def Let_def)

theorem page_moves_witness:
  "\<not> Loading example_model \<and> 2 \<le> Height example_model \<and> VisibleDirs example_model \<noteq> []
   \<and> 0 \<le> CursorPos example_model \<and> CursorPos example_model < len (VisibleDirs example_model)
   \<and> (\<exists>m'. Update example_model (KeyMsg ''pgdown'') = Inr (m', NoCmd) \<and> CursorPos m' = 3)
   \<and> (\<exists>m'. Update (example_model\<lparr>Height := 3\<rparr>) (KeyMsg ''pgdown'') = Inr (m', NoCmd)
          \<and> CursorPos m' = 1)
   \<and> (\<exists>m'. Update (example_model\<lparr>CursorPos := 3, Height := 4\<rparr>) (KeyMsg ''pgup'') = Inr (m', NoCmd)
          \<and> CursorPos m' = 1)"
proof -
  have a: "\<not> Loading example_model" "2 \<le> Height example_model" "VisibleDirs example_model \<noteq> []"
    "0 \<le> CursorPos example_model" "CursorPos example_model < len (VisibleDirs example_model)"
    by (simp_all add: example_model_def example_root_def len_def)
  have b: "\<not> Loading (example_model\<lparr>Height := 3\<rparr>)" "2 \<le> Height (example_model\<lparr>Height := 3\<rparr>)"
    "VisibleDirs (example_model\<lparr>Height := 3\<rparr>) \<noteq> []"
    "0 \<le> CursorPos (example_model\<lparr>Height := 3\<rparr>)"
    "CursorPos (example_model\<lparr>Height := 3\<rparr>) < len (VisibleDirs (example_model\<lparr>Height := 3\<rparr>))"
    by (simp_all add: example_model_def example_root_def len_def)
  have c: "\<not> Loading (example_model\<lparr>CursorPos := 3, Height := 4\<rparr>)"
    "2 \<le> Height (example_model\<lparr>CursorPos := 3, Height := 4\<rparr>)"
    "VisibleDirs (example_model\<lparr>CursorPos := 3, Height := 4\<rparr>) \<noteq> []"
    "0 \<le> CursorPos (example_model\<lparr>CursorPos := 3, Height := 4\<rparr>)"
    "CursorPos (example_model\<lparr>CursorPos := 3, Height := 4\<rparr>)
       < len (VisibleDirs (example_model\<lparr>CursorPos := 3, Height := 4\<rparr>))"
    by (simp_all add: example_model_def example_root_def len_def)
  have vals: "len (VisibleDirs example_model) = 4" "Height example_model = 20"
    "CursorPos example_model = 0"
    by (simp_all add: example_model_def example_root_def len_def)
  have "\<exists>m'. Update example_model (KeyMsg ''pgdown'') = Inr (m', NoCmd) \<and> CursorPos m' = 3"
    using page_moves [OF a] by (auto simp: vals)
  moreover have "\<exists>m'. Update (example_model\<lparr>Height := 3\<rparr>) (KeyMsg ''pgdown'') = Inr (m', NoCmd)
          \<and> CursorPos m' = 1"
    using page_moves [OF b] by (auto simp: vals)
  moreover have "\<exists>m'. Update (example_model\<lparr>CursorPos := 3, Height := 4\<rparr>) (KeyMsg ''pgup'')
          = Inr (m', NoCmd) \<and> CursorPos m' = 1"
    using page_moves [OF c] by (auto simp: vals)
  ultimately show ?thesis using a by blast
qed

text \<open>
  The claim as stated fails: with \<open>Height = 3\<close> and four entries, page-down from 0 moves
  the cursor to 1, not by \<open>Height\<close> rows to 3. (It also fails on an empty list and on a
  one-row terminal, where page-down sets the cursor to -1, and the amended claim says
  nothing about these; while loading, the key is ignored.)
\<close>

theorem page_moves_counterexample:
  "Update (example_model\<lparr>Height := 3\<rparr>) (KeyMsg ''pgdown'')
     = Inr (example_model\<lparr>CursorPos := 1, ScrollPos := 1, Height := 3\<rparr>, NoCmd)
   \<and> len (VisibleDirs (example_model\<lparr>Height := 3\<rparr>)) = 4
   \<and> Update empty_root_model (KeyMsg ''pgdown'')
       = Inr (empty_root_model\<lparr>CursorPos := - 1\<rparr>, NoCmd)
   \<and> run example_model [WindowSizeMsg 80 1, KeyMsg ''pgdown'']
       = Inr (example_model\<lparr>CursorPos := - 1, Height := 1\<rparr>, [NoCmd, NoCmd])
   \<and> Update (example_model\<lparr>Loading := True\<rparr>) (KeyMsg ''pgdown'')
       = Inr (example_model\<lparr>Loading := True\<rparr>, NoCmd)"
  by (simp add: nav_eval_defs empty_root_model_def)

text \<open>
  As long as the terminal has at least two rows, every message keeps the viewport
  invariant: each case of \<open>Update\<close> either leaves cursor, scroll position, list and
  height alone or ends in \<open>ensureCursorVisible\<close> with the cursor on an entry.
\<close>

lemma handleKey_viewport_ok:
  assumes ok: "viewport_ok m" and h: "2 \<le> Height m"
    and upd: "handleKey m key = Inr (m', cmd)"
  shows "viewport_ok m' \<and> Height m' = Height m"
proof -
  have range: "VisibleDirs m \<noteq> [] \<longrightarrow> 0 \<le> CursorPos m \<and> CursorPos m < len (VisibleDirs m)"
    using ok by (simp add: viewport_ok_def)
  have moved: "viewport_ok (ensureCursorVisible (m\<lparr>CursorPos := c\<rparr>))"
    if "VisibleDirs m \<noteq> [] \<longrightarrow> 0 \<le> c \<and> c < len (VisibleDirs m)" for c
    by (rule ensureCursorVisible_ok) (use that in simp)
  have nonempty: "VisibleDirs m \<noteq> [] \<Longrightarrow> 0 < len (VisibleDirs m)"
    by (simp add: len_def)
  consider (quit) "key = ''q'' \<or> key = ''ctrl+c''"
    | (up) "key = ''up'' \<or> key = ''k''"
    | (down) "key = ''down'' \<or> key = ''j''"
    | (enter) "key = ''enter'' \<or> key = ''backspace'' \<or> key = ''h''"
    | (home) "key = ''home'' \<or> key = ''g''"
    | (bottom) "key = ''end'' \<or> key = ''G''"
    | (pgup) "key = ''pgup''"
    | (pgdown) "key = ''pgdown''"
    | (other) "\<not> (key = ''q'' \<or> key = ''ctrl+c'')" "\<not> (key = ''up'' \<or> key = ''k'')"
        "\<not> (key = ''down'' \<or> key = ''j'')"
        "\<not> (key = ''enter'' \<or> key = ''backspace'' \<or> key = ''h'')"
        "\<not> (key = ''home'' \<or> key = ''g'')" "\<not> (key = ''end'' \<or> key = ''G'')"
        "key \<noteq> ''pgup''" "key \<noteq> ''pgdown''"
    by argo
  then show ?thesis
  proof cases
    case quit
    with upd ok show ?thesis by (simp add: handleKey_quit)
  next
    case up
    show ?thesis
    proof (cases "CursorPos m > 0")
      case True
      with upd up have "m' = ensureCursorVisible (m\<lparr>CursorPos := CursorPos m - 1\<rparr>)"
        by (simp add: handleKey_up)
      moreover have "viewport_ok (ensureCursorVisible (m\<lparr>CursorPos := CursorPos m - 1\<rparr>))"
        by (rule moved) (use range True in auto)
      ultimately show ?thesis by simp
    next
      case False
      with upd up ok show ?thesis by (simp add: handleKey_up)
    qed
  next
    case down
    show ?thesis
    proof (cases "CursorPos m < len (VisibleDirs m) - 1")
      case True
      with upd down have "m' = ensureCursorVisible (m\<lparr>CursorPos := CursorPos m + 1\<rparr>)"
        by (simp add: handleKey_down)
      moreover have "viewport_ok (ensureCursorVisible (m\<lparr>CursorPos := CursorPos m + 1\<rparr>))"
        by (rule moved) (use range True in auto)
      ultimately show ?thesis by simp
    next
      case False
      with upd down ok show ?thesis by (simp add: handleKey_down)
    qed
  next
    case enter
    from handleKey_enter_back [OF enter upd] ok show ?thesis by simp
  next
    case home
    with upd have "m' = ensureCursorVisible (m\<lparr>CursorPos := 0\<rparr>)"
      by (simp add: handleKey_home)
    moreover have "viewport_ok (ensureCursorVisible (m\<lparr>CursorPos := 0\<rparr>))"
      by (rule moved) (use nonempty in auto)
    ultimately show ?thesis by simp
  next
    case bottom
    show ?thesis
    proof (cases "len (VisibleDirs m) > 0")
      case True
      with upd bottom have "m' = ensureCursorVisible (m\<lparr>CursorPos := len (VisibleDirs m) - 1\<rparr>)"
        by (simp add: handleKey_end)
      moreover have "viewport_ok (ensureCursorVisible (m\<lparr>CursorPos := len (VisibleDirs m) - 1\<rparr>))"
        by (rule moved) (use True in auto)
      ultimately show ?thesis by simp
    next
      case False
      with upd bottom ok show ?thesis by (simp add: handleKey_end)
    qed
  next
    case pgup
    with upd have "m' = ensureCursorVisible
        (m\<lparr>CursorPos := max (CursorPos m - (Height m - 2)) 0\<rparr>)"
      by (simp add: handleKey_pgup)
    moreover have "viewport_ok (ensureCursorVisible
        (m\<lparr>CursorPos := max (CursorPos m - (Height m - 2)) 0\<rparr>))"
      by (rule moved) (use range h nonempty in auto)
    ultimately show ?thesis by simp
  next
    case pgdown
    let ?c = "if CursorPos m + (Height m - 2) \<ge> len (VisibleDirs m)
              then len (VisibleDirs m) - 1 else CursorPos m + (Height m - 2)"
    from pgdown upd have "m' = ensureCursorVisible (m\<lparr>CursorPos := ?c\<rparr>)"
      by (simp add: handleKey_pgdown)
    moreover have "viewport_ok (ensureCursorVisible (m\<lparr>CursorPos := ?c\<rparr>))"
      by (rule moved) (use range h nonempty in auto)
    ultimately show ?thesis by simp
  next
    case other
    then have "key \<notin> {''q'', ''ctrl+c'', ''up'', ''k'', ''down'', ''j'', ''enter'',
            ''backspace'', ''h'', ''home'', ''g'', ''end'', ''G'', ''pgup'', ''pgdown''}"
      by simp
    from handleKey_other [OF this, of m] upd ok show ?thesis by simp
  qed
qed

lemma Update_viewport_ok:
  assumes ok: "viewport_ok m" and h: "2 \<le> Height m"
    and size: "\<forall>w h. msg = WindowSizeMsg w h \<longrightarrow> 2 \<le> h"
    and upd: "Update m msg = Inr (m', cmd)"
  shows "viewport_ok m' \<and> 2 \<le> Height m'"
proof (cases msg)
  case (WindowSizeMsg w hh)
  have range: "VisibleDirs m \<noteq> [] \<longrightarrow> 0 \<le> CursorPos m \<and> CursorPos m < len (VisibleDirs m)"
    using ok by (simp add: viewport_ok_def)
  have "viewport_ok (ensureCursorVisible (m\<lparr>Height := hh\<rparr>))"
    by (rule ensureCursorVisible_ok) (use range in simp)
  with WindowSizeMsg upd size show ?thesis by auto
next
  case (LoadingMsg path)
  with upd ok h show ?thesis
    by (auto simp: Let_def viewport_ok_def)
next
  case (LoadingCompleteMsg dir err)
  show ?thesis
  proof (cases err)
    case (Some e)
    with LoadingCompleteMsg upd ok h show ?thesis
      by (auto simp: Let_def viewport_ok_def)
  next
    case None
    with LoadingCompleteMsg upd obtain m1 where
      m1: "updateVisibleDirs (m\<lparr>Loading := False, RootDir := dir\<rparr>) = Inr m1"
      and m': "m' = ensureCursorVisible (m1\<lparr>CursorPos := 0, ScrollPos := 0\<rparr>)"
      by (auto simp: Let_def split: sum.splits)
    have hm1: "Height m1 = Height m"
      using m1 by (auto simp: updateVisibleDirs_def Let_def split: option.splits)
    have "viewport_ok (ensureCursorVisible (m1\<lparr>CursorPos := 0, ScrollPos := 0\<rparr>))"
      by (rule ensureCursorVisible_ok) (auto simp: len_def)
    with m' hm1 h show ?thesis by simp
  qed
next
  case SpinnerMsg
  with upd ok h show ?thesis
    by (auto simp: viewport_ok_def split: if_splits)
next
  case (KeyMsg key)
  show ?thesis
  proof (cases "Loading m")
    case True
    with KeyMsg upd have "m' = m" by (auto split: if_splits)
    with ok h show ?thesis by simp
  next
    case False
    with KeyMsg upd have "handleKey m key = Inr (m', cmd)" by simp
    from handleKey_viewport_ok [OF ok h this] h show ?thesis by simp
  qed
next
  case OtherMsg
  with upd ok h show ?thesis by simp
qed

lemma run_viewport_ok:
  assumes "viewport_ok m" and "2 \<le> Height m"
    and "\<forall>w h. WindowSizeMsg w h \<in> set msgs \<longrightarrow> 2 \<le> h"
    and "run m msgs = Inr (m', cmds)"
  shows "viewport_ok m'"
  using assms
proof (induction msgs arbitrary: m cmds)
  case Nil
  then show ?case by simp
next
  case (Cons msg msgs)
  from Cons.prems(4) obtain m1 cmd cmds' where
    upd: "Update m msg = Inr (m1, cmd)" and rest: "run m1 msgs = Inr (m', cmds')"
    by (auto split: sum.splits prod.splits)
  have "viewport_ok m1 \<and> 2 \<le> Height m1"
    using Update_viewport_ok [OF Cons.prems(1,2) _ upd] Cons.prems(3) by auto
  then show ?case using Cons.IH [of m1 cmds'] Cons.prems(3) rest by auto
qed

lemma example_model_viewport_ok: "viewport_ok example_model"
  by (simp add: viewport_ok_def example_model_def example_root_def len_def)

text \<open>
  Claim C2. The viewport invariant is to hold after every sequence of cursor moves, page
  moves, home/end, resizes and load completions. The code breaks it: after a resize to
  one row, \<open>maxVisible = Height - 2\<close> is -1, page-down moves the cursor from 0 to -1
  (the clamp only guards the upper end), and after a resize back to 20 rows
  \<open>ensureCursorVisible\<close> sets the scroll position to the cursor and clamps it to 0: the
  list is non-empty, \<open>maxVisible\<close> is 18 and \<open>scrollOffset <= cursor\<close> is false. The next
  \<open>enter\<close> indexes the visible list at -1.
\<close>

theorem viewport_broken_by_one_row_terminal:
  "run example_model [WindowSizeMsg 80 1, KeyMsg ''pgdown'', WindowSizeMsg 80 20]
     = Inr (example_model\<lparr>CursorPos := - 1\<rparr>, [NoCmd, NoCmd, NoCmd])
   \<and> VisibleDirs (example_model\<lparr>CursorPos := - 1\<rparr>) \<noteq> []
   \<and> 0 < Height (example_model\<lparr>CursorPos := - 1\<rparr>) - 2
   \<and> \<not> ScrollPos (example_model\<lparr>CursorPos := - 1\<rparr>) \<le> CursorPos (example_model\<lparr>CursorPos := - 1\<rparr>)
   \<and> run example_model [WindowSizeMsg 80 1, KeyMsg ''pgdown'', WindowSizeMsg 80 20, KeyMsg ''enter'']
       = Inl (IndexOutOfRange (- 1))"
  by (simp add: nav_eval_defs)

text \<open>
  No message clears a stored error: \<open>m.Error\<close> is assigned in one place only, the
  failure branch of \<open>LoadingCompleteMsg\<close>. Once it is set, \<open>View\<close> shows the error
  screen after every run.
\<close>

lemma handleKey_result:
  assumes upd: "handleKey m key = Inr (m', cmd)"
  shows "m' = m \<or> (\<exists>c. m' = ensureCursorVisible (m\<lparr>CursorPos := c\<rparr>))"
proof -
  consider (quit) "key = ''q'' \<or> key = ''ctrl+c''"
    | (up) "key = ''up'' \<or> key = ''k''"
    | (down) "key = ''down'' \<or> key = ''j''"
    | (enter) "key = ''enter'' \<or> key = ''backspace'' \<or> key = ''h''"
    | (home) "key = ''home'' \<or> key = ''g''"
    | (bottom) "key = ''end'' \<or> key = ''G''"
    | (pgup) "key = ''pgup''"
    | (pgdown) "key = ''pgdown''"
    | (other) "\<not> (key = ''q'' \<or> key = ''ctrl+c'')" "\<not> (key = ''up'' \<or> key = ''k'')"
        "\<not> (key = ''down'' \<or> key = ''j'')"
        "\<not> (key = ''enter'' \<or> key = ''backspace'' \<or> key = ''h'')"
        "\<not> (key = ''home'' \<or> key = ''g'')" "\<not> (key = ''end'' \<or> key = ''G'')"
        "key \<noteq> ''pgup''" "key \<noteq> ''pgdown''"
    by argo
  then show ?thesis
  proof cases
    case quit
    with upd show ?thesis by (simp add: handleKey_quit)
  next
    case up
    with upd show ?thesis by (auto simp: handleKey_up split: if_splits)
  next
    case down
    with upd show ?thesis by (auto simp: handleKey_down split: if_splits)
  next
    case enter
    from handleKey_enter_back [OF enter upd] show ?thesis by simp
  next
    case home
    with upd show ?thesis by (auto simp: handleKey_home)
  next
    case bottom
    with upd show ?thesis by (auto simp: handleKey_end split: if_splits)
  next
    case pgup
    with upd show ?thesis by (auto simp: handleKey_pgup)
  next
    case pgdown
    with upd show ?thesis by (auto simp: handleKey_pgdown)
  next
    case other
    then have "key \<notin> {''q'', ''ctrl+c'', ''up'', ''k'', ''down'', ''j'', ''enter'',
            ''backspace'', ''h'', ''home'', ''g'', ''end'', ''G'', ''pgup'', ''pgdown''}"
      by simp
    from handleKey_other [OF this, of m] upd show ?thesis by simp
  qed
qed

lemma Update_keeps_Error:
  assumes err: "Error m = Some e" and upd: "Update m msg = Inr (m', cmd)"
  shows "\<exists>e'. Error m' = Some e'"
proof (cases msg)
  case (WindowSizeMsg w h)
  with upd err show ?thesis by auto
next
  case (LoadingMsg path)
  with upd err show ?thesis by (auto simp: Let_def)
next
  case (LoadingCompleteMsg dir failure)
  with upd err show ?thesis
    by (auto simp: Let_def updateVisibleDirs_def split: option.splits sum.splits)
next
  case SpinnerMsg
  with upd err show ?thesis by (auto split: if_splits)
next
  case (KeyMsg key)
  show ?thesis
  proof (cases "Loading m")
    case True
    with KeyMsg upd err show ?thesis by (auto split: if_splits)
  next
    case False
    with KeyMsg upd have "handleKey m key = Inr (m', cmd)" by simp
    from handleKey_result [OF this] err show ?thesis by auto
  qed
next
  case OtherMsg
  with upd err show ?thesis by simp
qed

lemma run_keeps_Error:
  assumes "Error m = Some e" and "run m msgs = Inr (m', cmds)"
  shows "\<exists>e'. Error m' = Some e' \<and> View m' = Inr (ErrorScreen e')"
  using assms
proof (induction msgs arbitrary: m e cmds)
  case Nil
  then show ?case by (simp add: View_def)
next
  case (Cons msg msgs)
  from Cons.prems(2) obtain m1 cmd cmds' where
    upd: "Update m msg = Inr (m1, cmd)" and rest: "run m1 msgs = Inr (m', cmds')"
    by (auto split: sum.splits prod.splits)
  from Update_keeps_Error [OF Cons.prems(1) upd] obtain e1 where "Error m1 = Some e1" by blast
  from Cons.IH [OF this rest] show ?case .
qed

text \<open>
  Claim C7. After a failed load, a new request is to end with the error display gone.
  The code never clears \<open>m.Error\<close>: entering the unreadable directory \<open>secret\<close> sets it,
  the next request (for \<open>a\<close>) does start a load and its success installs the new root
  and visible list, but \<open>View\<close> tests \<open>m.Error\<close> first and still shows the error. Each
  message of the run answers the command returned just before it, and the two
  \<open>LoadingCompleteMsg\<close> are what \<open>loadDirectory\<close> returns on the example tree.
\<close>

theorem error_screen_survives_successful_load:
  "run example_model
     [KeyMsg ''down'', KeyMsg ''down'', KeyMsg ''down'', KeyMsg ''enter'',
      LoadingMsg ''/tmp/x/secret'',
      LoadingCompleteMsg None (Some (PathError ''open'' ''/tmp/x/secret'')),
      KeyMsg ''up'', KeyMsg ''up'', KeyMsg ''enter'',
      LoadingMsg ''/tmp/x/a'',
      LoadingCompleteMsg (Some example_a) None]
     = Inr (example_model
              \<lparr> RootDir := Some example_a,
                VisibleDirs := DirEntry ''..'' ''/tmp/x'' 0 0 [] True 0 # Children example_a,
                Error := Some (PathError ''open'' ''/tmp/x/secret''),
                LoadingPath := ''/tmp/x/a'' \<rparr>,
            [NoCmd, NoCmd, NoCmd, SendLoadingMsg ''/tmp/x/secret'',
             LoadDirectoryCmd ''/tmp/x/secret'' False, NoCmd, NoCmd, NoCmd,
             SendLoadingMsg ''/tmp/x/a'', LoadDirectoryCmd ''/tmp/x/a'' False, NoCmd])
   \<and> View (example_model
              \<lparr> RootDir := Some example_a,
                VisibleDirs := DirEntry ''..'' ''/tmp/x'' 0 0 [] True 0 # Children example_a,
                Error := Some (PathError ''open'' ''/tmp/x/secret''),
                LoadingPath := ''/tmp/x/a'' \<rparr>)
       = Inr (ErrorScreen (PathError ''open'' ''/tmp/x/secret''))
   \<and> fst (loadDirectory example_fs empty_cache ''/tmp/x/secret'' False)
       = (None, Some (PathError ''open'' ''/tmp/x/secret''))
   \<and> fst (loadDirectory example_fs empty_cache ''/tmp/x/a'' False) = (Some example_a, None)"
  by (simp add: nav_eval_defs View_def load_example_secret load_example_a)

end
